theory Spec2Isabelle
  imports Main "HOL-Library.Sublist"
begin

section \<open>Text\<close>

text \<open>
  The parser of \<^verbatim>\<open>src/app.py\<close> (class \<^verbatim>\<open>VCFParser\<close>) works on Python \<^verbatim>\<open>str\<close> values.
  A text is modelled as a \<^typ>\<open>string\<close>; each \<^typ>\<open>char\<close> stands for the code point of the
  same number, so the model covers texts whose code points are below 256 (ASCII and
  Latin-1). The character classes and case mappings below are those of Python 3 on that
  range. Two code points have an upper case outside the range (U+00B5 and U+00FF);
  the model leaves them unchanged.
\<close>

definition code :: "char \<Rightarrow> nat" where
  "code c = of_char c"

text \<open>\<^verbatim>\<open>str.isspace\<close>, the characters removed by \<^verbatim>\<open>str.strip()\<close> and matched by \<^verbatim>\<open>\s\<close>.\<close>

definition is_space :: "char \<Rightarrow> bool" where
  "is_space c = ((9 \<le> code c \<and> code c \<le> 13) \<or> (28 \<le> code c \<and> code c \<le> 32)
     \<or> code c = 133 \<or> code c = 160)"

text \<open>The characters matched by \<^verbatim>\<open>\d\<close>.\<close>

definition is_digit :: "char \<Rightarrow> bool" where
  "is_digit c = (48 \<le> code c \<and> code c \<le> 57)"

definition is_upper :: "char \<Rightarrow> bool" where
  "is_upper c = ((65 \<le> code c \<and> code c \<le> 90) \<or> (192 \<le> code c \<and> code c \<le> 222 \<and> code c \<noteq> 215))"

definition is_lower_shiftable :: "char \<Rightarrow> bool" where
  "is_lower_shiftable c = ((97 \<le> code c \<and> code c \<le> 122) \<or> (224 \<le> code c \<and> code c \<le> 254 \<and> code c \<noteq> 247))"

text \<open>The cased characters (upper case, lower case, or with the property Other\_Lowercase).\<close>

definition is_cased :: "char \<Rightarrow> bool" where
  "is_cased c = (is_upper c \<or> is_lower_shiftable c \<or> code c = 170 \<or> code c = 181 \<or> code c = 186
     \<or> code c = 223 \<or> code c = 255)"

definition lower_char :: "char \<Rightarrow> char" where
  "lower_char c = (if is_upper c then char_of (code c + 32) else c)"

text \<open>The upper case of one character is a text: U+00DF becomes \<^verbatim>\<open>SS\<close>.\<close>

definition upper_char :: "char \<Rightarrow> string" where
  "upper_char c = (if is_lower_shiftable c then [char_of (code c - 32)]
     else if code c = 223 then ''SS'' else [c])"

definition title_char :: "char \<Rightarrow> string" where
  "title_char c = (if code c = 223 then ''Ss'' else upper_char c)"

definition lower :: "string \<Rightarrow> string" where
  "lower s = map lower_char s"

definition upper :: "string \<Rightarrow> string" where
  "upper s = concat (map upper_char s)"

text \<open>
  \<^verbatim>\<open>str.title()\<close>: a character that follows a cased character is lower-cased, any other
  character is title-cased.
\<close>

fun title_from :: "bool \<Rightarrow> string \<Rightarrow> string" where
  "title_from previous_is_cased [] = []"
| "title_from previous_is_cased (c # cs) =
     (if previous_is_cased then [lower_char c] else title_char c) @ title_from (is_cased c) cs"

definition title :: "string \<Rightarrow> string" where
  "title s = title_from False s"

text \<open>\<^verbatim>\<open>str.strip()\<close> with no argument.\<close>

definition strip :: "string \<Rightarrow> string" where
  "strip s = rev (dropWhile is_space (rev (dropWhile is_space s)))"

definition startswith :: "string \<Rightarrow> string \<Rightarrow> bool" where
  "startswith s p = prefix p s"

text \<open>\<^verbatim>\<open>sub in s\<close> for texts.\<close>

fun contains :: "string \<Rightarrow> string \<Rightarrow> bool" where
  "contains [] sub = (sub = [])"
| "contains (c # cs) sub = (prefix sub (c # cs) \<or> contains cs sub)"

text \<open>\<^verbatim>\<open>s.split(sep)\<close> for a separator of one character: never the empty list.\<close>

fun split :: "string \<Rightarrow> char \<Rightarrow> string list" where
  "split [] sep = [[]]"
| "split (c # cs) sep =
     (if c = sep then [] # split cs sep
      else (case split cs sep of [] \<Rightarrow> [[c]] | w # ws \<Rightarrow> (c # w) # ws))"

text \<open>\<^verbatim>\<open>s.split(sep, 1)\<close>: one part when \<^verbatim>\<open>sep\<close> does not occur, two parts otherwise.\<close>

definition split1 :: "string \<Rightarrow> char \<Rightarrow> string list" where
  "split1 s sep =
     (case dropWhile (\<lambda>c. c \<noteq> sep) s of
        [] \<Rightarrow> [s]
      | _ # rest \<Rightarrow> [takeWhile (\<lambda>c. c \<noteq> sep) s, rest])"

text \<open>\<^verbatim>\<open>s.replace(old, new)\<close> for a non-empty \<^verbatim>\<open>old\<close>, left to right, without overlap.\<close>

function replace :: "string \<Rightarrow> string \<Rightarrow> string \<Rightarrow> string" where
  "replace s old new =
     (if s = [] \<or> old = [] then s
      else if prefix old s then new @ replace (drop (length old) s) old new
      else hd s # replace (tl s) old new)"
  by pat_completeness auto
termination
  by (relation "measure (\<lambda>(s, old, new). length s)") (auto simp: neq_Nil_conv)

section \<open>Dictionaries\<close>

text \<open>
  A Python \<^verbatim>\<open>dict\<close> keeps its keys in insertion order; assigning to a key that is present
  replaces the value in place. A contact is a \<^verbatim>\<open>dict\<close> from field names to values.
\<close>

type_synonym ('k, 'v) dict = "('k \<times> 'v) list"

fun dict_set :: "('k, 'v) dict \<Rightarrow> 'k \<Rightarrow> 'v \<Rightarrow> ('k, 'v) dict" where
  "dict_set [] k v = [(k, v)]"
| "dict_set ((k', v') # d) k v = (if k' = k then (k', v) # d else (k', v') # dict_set d k v)"

definition dict_get :: "('k, 'v) dict \<Rightarrow> 'k \<Rightarrow> 'v option" where
  "dict_get d k = map_of d k"

definition keys :: "('k, 'v) dict \<Rightarrow> 'k list" where
  "keys d = map fst d"

type_synonym contact = "(string, string) dict"

section \<open>Type detection\<close>

text \<open>
  \<^verbatim>\<open>_get_phone_type\<close>, \<^verbatim>\<open>_get_email_type\<close> and \<^verbatim>\<open>_get_address_type\<close>: each loops over
  the parameters of the line and returns at the first parameter that is a key of its
  \<^verbatim>\<open>type_mapping\<close>.
\<close>

definition phone_type_mapping :: "(string, string) dict" where
  "phone_type_mapping =
     [(''HOME'', ''Home''), (''WORK'', ''Work''), (''CELL'', ''Mobile''), (''MOBILE'', ''Mobile''),
      (''FAX'', ''Fax''), (''PAGER'', ''Pager''), (''VOICE'', ''Voice''), (''MAIN'', ''Main'')]"

definition email_type_mapping :: "(string, string) dict" where
  "email_type_mapping = [(''HOME'', ''Home''), (''WORK'', ''Work''), (''INTERNET'', ''Internet'')]"

definition address_type_mapping :: "(string, string) dict" where
  "address_type_mapping = [(''HOME'', ''Home''), (''WORK'', ''Work'')]"

fun get_type :: "(string, string) dict \<Rightarrow> string \<Rightarrow> string list \<Rightarrow> string" where
  "get_type type_mapping dflt [] = dflt"
| "get_type type_mapping dflt (param # parameters) =
     (case dict_get type_mapping param of
        Some t \<Rightarrow> t
      | None \<Rightarrow> get_type type_mapping dflt parameters)"

definition get_phone_type :: "string list \<Rightarrow> string" where
  "get_phone_type parameters = get_type phone_type_mapping ''Phone'' parameters"

definition get_email_type :: "string list \<Rightarrow> string" where
  "get_email_type parameters = get_type email_type_mapping ''Email'' parameters"

definition get_address_type :: "string list \<Rightarrow> string" where
  "get_address_type parameters = get_type address_type_mapping ''Address'' parameters"

section \<open>The field mapper\<close>

text \<open>
  The parser object carries the contacts found so far and the set of all field names;
  \<^verbatim>\<open>file_path\<close> and \<^verbatim>\<open>field_mapping\<close> are not read by the functions modelled here.
  Implicit failures of the source (an unpacking of the wrong length, an index out of
  range) are values of \<open>error\<close>.
\<close>

datatype error = ValueError | IndexError

record vcf_parser =
  contacts :: "contact list"
  all_fields :: "string set"

text \<open>The pair of statements \<^verbatim>\<open>contact[field] = v; self.all_fields.add(field)\<close>.\<close>

definition set_field :: "vcf_parser \<times> contact \<Rightarrow> string \<Rightarrow> string \<Rightarrow> vcf_parser \<times> contact" where
  "set_field st field v =
     (case st of (self, contact) \<Rightarrow>
        (self\<lparr>all_fields := insert field (all_fields self)\<rparr>, dict_set contact field v))"

text \<open>
  The loops \<^verbatim>\<open>for i, field in enumerate(fields): if i < len(parts) and parts[i]: ...\<close>
  of the properties N and ADR over the labels of the parts; \<open>name\<close> gives the field
  name written for a label.
\<close>

fun set_parts ::
  "vcf_parser \<times> contact \<Rightarrow> (string \<Rightarrow> string) \<Rightarrow> string list \<Rightarrow> string list \<Rightarrow> vcf_parser \<times> contact"
where
  "set_parts st name (field # labels) (part # parts) =
     set_parts (if part \<noteq> [] then set_field st (name field) part else st) name labels parts"
| "set_parts st name labels parts = st"

definition name_fields :: "string list" where
  "name_fields = [''Last Name'', ''First Name'', ''Middle Name'', ''Name Prefix'', ''Name Suffix'']"

definition addr_fields :: "string list" where
  "addr_fields = [''PO Box'', ''Extended Address'', ''Street Address'', ''City'',
     ''State/Province'', ''Postal Code'', ''Country'']"

text \<open>The characters kept by \<^verbatim>\<open>re.sub(r'[^\d\+\-\(\)\s]', '', value)\<close>.\<close>

definition phone_char :: "char \<Rightarrow> bool" where
  "phone_char c = (is_digit c \<or> c = CHR ''+'' \<or> c = CHR ''-'' \<or> c = CHR ''('' \<or> c = CHR '')''
     \<or> is_space c)"

section \<open>The date normalizer\<close>

text \<open>
  \<^verbatim>\<open>datetime.strptime\<close> turns a format into a regular expression, matches it at the start
  of the text with backtracking, and rejects a match that leaves text over. A directive
  is matched by trying its alternatives in order:
  \<^verbatim>\<open>%Y\<close> is \<^verbatim>\<open>\d\d\d\d\<close>, \<^verbatim>\<open>%m\<close> is \<^verbatim>\<open>1[0-2]|0[1-9]|[1-9]\<close> and
  \<^verbatim>\<open>%d\<close> is \<^verbatim>\<open>3[0-1]|[1-2]\d|0[1-9]|[1-9]| [1-9]\<close>.
  A matcher returns, in the order of the backtracking search, every way to match a prefix
  of the text: the groups captured and the rest of the text.
\<close>

definition in_range :: "char \<Rightarrow> char \<Rightarrow> char \<Rightarrow> bool" where
  "in_range lo hi c = (code lo \<le> code c \<and> code c \<le> code hi)"

text \<open>One alternative made of one or two character classes.\<close>

fun alt :: "(char \<Rightarrow> bool) list \<Rightarrow> string \<Rightarrow> (string \<times> string) list" where
  "alt [] s = [([], s)]"
| "alt (p # ps) [] = []"
| "alt (p # ps) (c # cs) = (if p c then map (\<lambda>(m, r). (c # m, r)) (alt ps cs) else [])"

definition directive :: "char \<Rightarrow> string \<Rightarrow> (string \<times> string) list" where
  "directive d s =
     (if d = CHR ''Y'' then alt [is_digit, is_digit, is_digit, is_digit] s
      else if d = CHR ''m'' then
        alt [(=) CHR ''1'', in_range CHR ''0'' CHR ''2''] s
        @ alt [(=) CHR ''0'', in_range CHR ''1'' CHR ''9''] s
        @ alt [in_range CHR ''1'' CHR ''9''] s
      else if d = CHR ''d'' then
        alt [(=) CHR ''3'', in_range CHR ''0'' CHR ''1''] s
        @ alt [in_range CHR ''1'' CHR ''2'', is_digit] s
        @ alt [(=) CHR ''0'', in_range CHR ''1'' CHR ''9''] s
        @ alt [in_range CHR ''1'' CHR ''9''] s
        @ alt [(=) CHR '' '', in_range CHR ''1'' CHR ''9''] s
      else [])"

text \<open>
  Matching a format: a directive \<^verbatim>\<open>%x\<close> captures a group named \<^verbatim>\<open>x\<close>, any other
  character of the formats used here (\<^verbatim>\<open>-\<close> and \<^verbatim>\<open>/\<close>) matches itself.
\<close>

fun re_match :: "string \<Rightarrow> string \<Rightarrow> ((char, string) dict \<times> string) list" where
  "re_match [] s = [([], s)]"
| "re_match [c] s = (case s of [] \<Rightarrow> [] | x # r \<Rightarrow> if x = c then [([], r)] else [])"
| "re_match (c # d # fmt) s =
     (if c = CHR ''%'' then
        concat (map (\<lambda>(m, r). map (\<lambda>(groups, r'). ((d, m) # groups, r')) (re_match fmt r))
          (directive d s))
      else (case s of [] \<Rightarrow> [] | x # r \<Rightarrow> if x = c then re_match (d # fmt) r else []))"

text \<open>\<^verbatim>\<open>int\<close> of a captured group: decimal digits, after an optional leading space.\<close>

definition digit_value :: "char \<Rightarrow> nat" where
  "digit_value c = code c - 48"

definition int_of :: "string \<Rightarrow> nat" where
  "int_of s = foldl (\<lambda>n c. 10 * n + digit_value c) 0 (dropWhile is_space s)"

definition is_leap :: "nat \<Rightarrow> bool" where
  "is_leap y = (y mod 4 = 0 \<and> (y mod 100 \<noteq> 0 \<or> y mod 400 = 0))"

definition days_in_month :: "nat \<Rightarrow> nat \<Rightarrow> nat" where
  "days_in_month y m =
     (if m = 2 then (if is_leap y then 29 else 28)
      else if m = 4 \<or> m = 6 \<or> m = 9 \<or> m = 11 then 30 else 31)"

record date =
  year :: nat
  month :: nat
  day :: nat

text \<open>
  \<^verbatim>\<open>datetime.strptime(date_str, fmt)\<close> for the formats of \<^verbatim>\<open>_format_date\<close>: \<open>None\<close>
  stands for \<^verbatim>\<open>ValueError\<close>: no match, text left over, or a date that \<^verbatim>\<open>datetime\<close>
  refuses (a year outside 1 to 9999, a month outside 1 to 12, a day outside the month).
\<close>

definition strptime :: "string \<Rightarrow> string \<Rightarrow> date option" where
  "strptime date_str fmt =
     (case re_match fmt date_str of
        [] \<Rightarrow> None
      | (groups, rest) # _ \<Rightarrow>
          if rest \<noteq> [] then None
          else (case (dict_get groups CHR ''Y'', dict_get groups CHR ''m'', dict_get groups CHR ''d'') of
                  (Some y, Some m, Some d) \<Rightarrow>
                    if 1 \<le> int_of y \<and> int_of y \<le> 9999 \<and> 1 \<le> int_of m \<and> int_of m \<le> 12
                       \<and> 1 \<le> int_of d \<and> int_of d \<le> days_in_month (int_of y) (int_of m)
                    then Some \<lparr>year = int_of y, month = int_of m, day = int_of d\<rparr>
                    else None
                | _ \<Rightarrow> None))"

definition digit_char :: "nat \<Rightarrow> char" where
  "digit_char n = char_of (48 + n mod 10)"

definition pad2 :: "nat \<Rightarrow> string" where
  "pad2 n = [digit_char (n div 10), digit_char n]"

definition pad4 :: "nat \<Rightarrow> string" where
  "pad4 n = [digit_char (n div 1000), digit_char (n div 100), digit_char (n div 10), digit_char n]"

text \<open>
  \<^verbatim>\<open>%Y\<close> in \<^verbatim>\<open>strftime\<close> is left to the C library for years below 1000: Python
  documents four digits (\<^verbatim>\<open>0985\<close>), and some platforms print the bare number
  (\<^verbatim>\<open>985\<close>). The flag \<open>pad_year\<close> chooses between the two; the years are those of a
  \<^verbatim>\<open>datetime\<close>, from 1 to 9999.
\<close>

definition year_text :: "bool \<Rightarrow> nat \<Rightarrow> string" where
  "year_text pad_year y =
     (if pad_year \<or> 1000 \<le> y then pad4 y
      else if 100 \<le> y then [digit_char (y div 100), digit_char (y div 10), digit_char y]
      else if 10 \<le> y then [digit_char (y div 10), digit_char y]
      else [digit_char y])"

text \<open>\<^verbatim>\<open>date_obj.strftime('%Y-%m-%d')\<close>.\<close>

definition strftime :: "bool \<Rightarrow> date \<Rightarrow> string" where
  "strftime pad_year date_obj =
     year_text pad_year (year date_obj) @ ''-'' @ pad2 (month date_obj) @ ''-'' @ pad2 (day date_obj)"

definition formats :: "string list" where
  "formats = [''%Y%m%d'', ''%Y-%m-%d'', ''%m/%d/%Y'', ''%d/%m/%Y'']"

text \<open>
  The loop of \<^verbatim>\<open>_format_date\<close> over the formats: \<^verbatim>\<open>ValueError\<close> moves on to the next
  format, and the text itself is returned when no format is left.
\<close>

fun format_date_loop :: "bool \<Rightarrow> string \<Rightarrow> string list \<Rightarrow> string" where
  "format_date_loop pad_year date_str [] = date_str"
| "format_date_loop pad_year date_str (fmt # fmts) =
     (case strptime date_str fmt of
        Some date_obj \<Rightarrow> strftime pad_year date_obj
      | None \<Rightarrow> format_date_loop pad_year date_str fmts)"

definition format_date :: "bool \<Rightarrow> string \<Rightarrow> string" where
  "format_date pad_year date_str = format_date_loop pad_year date_str formats"

section \<open>Properties to fields\<close>

text \<open>
  \<^verbatim>\<open>_extract_field_data\<close>. The only statement that can fail is the index
  \<^verbatim>\<open>org_parts[0]\<close>, before anything is written.
\<close>

definition typed_name :: "string \<Rightarrow> string \<Rightarrow> string \<Rightarrow> string" where
  "typed_name label t dflt = (if t \<noteq> dflt then label @ '' ('' @ t @ '')'' else label)"

definition extract_field_data ::
  "bool \<Rightarrow> vcf_parser \<Rightarrow> contact \<Rightarrow> string \<Rightarrow> string \<Rightarrow> string list \<Rightarrow> error + vcf_parser \<times> contact"
where
  "extract_field_data pad_year self contact property_name val parameters =
     (if property_name = ''N'' then
        (let name_parts = map strip (split val CHR '';'')
         in Inr (set_parts (self, contact) (\<lambda>field. field) name_fields name_parts))
      else if property_name = ''FN'' then
        Inr (set_field (self, contact) ''Full Name'' val)
      else if property_name = ''TEL'' then
        (let phone_type = get_phone_type parameters;
             field_name = typed_name ''Phone'' phone_type ''Phone'';
             clean_phone = filter phone_char val
         in Inr (set_field (self, contact) field_name clean_phone))
      else if property_name = ''EMAIL'' then
        (let email_type = get_email_type parameters;
             field_name = typed_name ''Email'' email_type ''Email''
         in Inr (set_field (self, contact) field_name (lower val)))
      else if property_name = ''ADR'' then
        (let addr_parts = map strip (split val CHR '';'');
             addr_type = get_address_type parameters
         in Inr (set_parts (self, contact) (\<lambda>field. typed_name field addr_type ''Address'')
                   addr_fields addr_parts))
      else if property_name = ''ORG'' then
        (let org_parts = map strip (split val CHR '';'')
         in case org_parts of
              [] \<Rightarrow> Inl IndexError
            | org # rest \<Rightarrow>
                (let st = set_field (self, contact) ''Organization'' org
                 in Inr (case rest of
                           [] \<Rightarrow> st
                         | dept # _ \<Rightarrow> if dept \<noteq> [] then set_field st ''Department'' dept else st)))
      else if property_name = ''TITLE'' then
        Inr (set_field (self, contact) ''Job Title'' val)
      else if property_name = ''BDAY'' then
        (let birthday = format_date pad_year val
         in Inr (set_field (self, contact) ''Birthday'' birthday))
      else if property_name = ''NOTE'' then
        Inr (set_field (self, contact) ''Notes'' val)
      else if property_name = ''URL'' then
        Inr (set_field (self, contact) ''Website'' val)
      else if property_name = ''NICKNAME'' then
        Inr (set_field (self, contact) ''Nickname'' val)
      else if property_name = ''CATEGORIES'' then
        Inr (set_field (self, contact) ''Categories'' val)
      else if startswith property_name ''X-'' then
        (let field_name = title (replace (replace property_name ''X-'' []) ''-'' '' '')
         in Inr (set_field (self, contact) field_name val))
      else
        (let field_name = title (replace property_name ''-'' '' '')
         in Inr (set_field (self, contact) field_name val)))"

section \<open>One vCard\<close>

text \<open>
  The first loop of \<^verbatim>\<open>parse_vcard\<close> (``handle line continuations''): every line is
  stripped first, then tested for a leading space or tab.
\<close>

fun unfold_loop :: "string list \<Rightarrow> string \<Rightarrow> string list \<Rightarrow> string list \<times> string" where
  "unfold_loop processed_lines current_line [] = (processed_lines, current_line)"
| "unfold_loop processed_lines current_line (line # lines) =
     (let line = strip line
      in if startswith line '' '' \<or> startswith line [CHR 0x09]
         then unfold_loop processed_lines (current_line @ drop 1 line) lines
         else unfold_loop
                (if current_line \<noteq> [] then processed_lines @ [current_line] else processed_lines)
                line lines)"

definition unfold_lines :: "string \<Rightarrow> string list" where
  "unfold_lines vcard_text =
     (let lines = split (strip vcard_text) CHR 0x0A
      in case unfold_loop [] [] lines of
           (processed_lines, current_line) \<Rightarrow>
             if current_line \<noteq> [] then processed_lines @ [current_line] else processed_lines)"

text \<open>
  The body of the \<^verbatim>\<open>try\<close> of the second loop. Unpacking the result of
  \<^verbatim>\<open>line.split(':', 1)\<close> fails unless there are two parts, and
  \<^verbatim>\<open>property_part.split(';')[0]\<close> fails on an empty list; both come before any write.
  The \<^verbatim>\<open>continue\<close> on an empty value returns the state as it is.
\<close>

definition line_body ::
  "bool \<Rightarrow> vcf_parser \<Rightarrow> contact \<Rightarrow> string \<Rightarrow> error + vcf_parser \<times> contact"
where
  "line_body pad_year self contact line =
     (case split1 line CHR '':'' of
        [property_part, val] \<Rightarrow>
          (let val = strip val
           in if val = [] then Inr (self, contact)
              else if CHR '';'' \<in> set property_part then
                (case split property_part CHR '';'' of
                   [] \<Rightarrow> Inl IndexError
                 | name # params \<Rightarrow>
                     extract_field_data pad_year self contact (upper name) val (map upper params))
              else extract_field_data pad_year self contact (upper property_part) val [])
      | _ \<Rightarrow> Inl ValueError)"

text \<open>One turn of the second loop; \<^verbatim>\<open>except Exception: continue\<close> drops the line.\<close>

definition process_line :: "bool \<Rightarrow> vcf_parser \<times> contact \<Rightarrow> string \<Rightarrow> vcf_parser \<times> contact" where
  "process_line pad_year st line =
     (case st of (self, contact) \<Rightarrow>
        if line = [] \<or> startswith (upper line) ''BEGIN:VCARD'' \<or> startswith (upper line) ''END:VCARD''
        then (self, contact)
        else if CHR '':'' \<notin> set line then (self, contact)
        else (case line_body pad_year self contact line of
                Inr st' \<Rightarrow> st'
              | Inl e \<Rightarrow> (self, contact)))"

text \<open>\<^verbatim>\<open>parse_vcard\<close>: the contact, or \<open>None\<close> when no field was written.\<close>

definition parse_vcard :: "bool \<Rightarrow> vcf_parser \<Rightarrow> string \<Rightarrow> vcf_parser \<times> contact option" where
  "parse_vcard pad_year self vcard_text =
     (case foldl (process_line pad_year) (self, []) (unfold_lines vcard_text) of
        (self', contact) \<Rightarrow> (self', if contact \<noteq> [] then Some contact else None))"

section \<open>All vCards\<close>


definition new_parser :: vcf_parser where
  "new_parser = \<lparr>contacts = [], all_fields = {}\<rparr>"

section \<open>Field groups\<close>

text \<open>
  \<^verbatim>\<open>get_field_suggestions\<close>. Python iterates over the set \<^verbatim>\<open>self.all_fields\<close> in an order
  of its own, the same in each of the comprehensions; the list \<open>field_list\<close> is the set in
  that order. The result is a \<^verbatim>\<open>dict\<close> from group names to lists of field names.
\<close>

definition any_keyword :: "string \<Rightarrow> string list \<Rightarrow> bool" where
  "any_keyword f keywords = list_ex (\<lambda>keyword. contains (lower f) keyword) keywords"

definition name_keywords :: "string list" where
  "name_keywords = [''name'', ''nickname'']"

definition contact_keywords :: "string list" where
  "contact_keywords = [''phone'', ''email'', ''website'']"

definition address_keywords :: "string list" where
  "address_keywords = [''address'', ''street'', ''city'', ''state'', ''postal'', ''country'']"

definition work_keywords :: "string list" where
  "work_keywords = [''organization'', ''title'', ''job'', ''department'', ''work'']"

definition personal_keywords :: "string list" where
  "personal_keywords = [''birthday'', ''anniversary'', ''note'', ''categories'']"

definition get_field_suggestions :: "string list \<Rightarrow> (string, string list) dict" where
  "get_field_suggestions field_list =
     (let suggestions =
            [(''Name Fields'', filter (\<lambda>f. any_keyword f name_keywords) field_list),
             (''Contact Fields'', filter (\<lambda>f. any_keyword f contact_keywords) field_list),
             (''Address Fields'', filter (\<lambda>f. any_keyword f address_keywords) field_list),
             (''Work Fields'', filter (\<lambda>f. any_keyword f work_keywords) field_list),
             (''Personal Fields'', filter (\<lambda>f. any_keyword f personal_keywords) field_list),
             (''Other Fields'', [])];
          used_fields = set (concat (map snd suggestions));
          suggestions = dict_set suggestions ''Other Fields''
                          (filter (\<lambda>f. f \<notin> used_fields) field_list)
      in filter (\<lambda>(k, v). v \<noteq> []) suggestions)"

text \<open>The fields listed under a group of the result; none when the group is absent.\<close>

definition group_fields :: "(string, string list) dict \<Rightarrow> string \<Rightarrow> string list" where
  "group_fields suggestions g = (case dict_get suggestions g of None \<Rightarrow> [] | Some v \<Rightarrow> v)"

section \<open>The decoder\<close>

text \<open>
  The first loop of \<^verbatim>\<open>parse\<close>. Reading the file under an encoding is Python's own work:
  \<open>read_as encoding file\<close> stands for \<^verbatim>\<open>open(file_path, 'r', encoding=encoding).read()\<close>,
  with \<open>None\<close> for \<^verbatim>\<open>UnicodeDecodeError\<close>. The loop stops at the first encoding that reads
  the file, and \<^verbatim>\<open>ValueError\<close> is raised when \<^verbatim>\<open>content\<close> is still \<^verbatim>\<open>None\<close> after it.
\<close>

definition encodings :: "string list" where
  "encodings = [''utf-8'', ''utf-8-sig'', ''latin1'', ''cp1252'', ''iso-8859-1'']"

fun read_loop :: "(string \<Rightarrow> 'f \<Rightarrow> 't option) \<Rightarrow> 'f \<Rightarrow> string list \<Rightarrow> 't option" where
  "read_loop read_as file [] = None"
| "read_loop read_as file (encoding # rest) =
     (case read_as encoding file of
        Some content \<Rightarrow> Some content
      | None \<Rightarrow> read_loop read_as file rest)"

definition read_content :: "(string \<Rightarrow> 'f \<Rightarrow> 't option) \<Rightarrow> 'f \<Rightarrow> error + 't" where
  "read_content read_as file =
     (case read_loop read_as file encodings of
        None \<Rightarrow> Inl ValueError
      | Some content \<Rightarrow> Inr content)"

text \<open>
  Python's decoders for these names, on a file given as its bytes, to a text given as its
  code points. UTF-8 is strict: no overlong forms, no surrogates, nothing above U+10FFFF.
\<close>

definition continuation :: "nat \<Rightarrow> bool" where
  "continuation b = (128 \<le> b \<and> b < 192)"

fun utf_8 :: "nat list \<Rightarrow> nat list option" where
  "utf_8 [] = Some []"
| "utf_8 (a # bs) =
     (if a < 128 then map_option ((#) a) (utf_8 bs)
      else if 194 \<le> a \<and> a < 224 then
        (case bs of
           b # r \<Rightarrow> if continuation b
                    then map_option ((#) ((a - 192) * 64 + (b - 128))) (utf_8 r) else None
         | _ \<Rightarrow> None)
      else if 224 \<le> a \<and> a < 240 then
        (case bs of
           b # c # r \<Rightarrow>
             (let cp = (a - 224) * 4096 + (b - 128) * 64 + (c - 128)
              in if continuation b \<and> continuation c \<and> 2048 \<le> cp \<and> \<not> (55296 \<le> cp \<and> cp < 57344)
                 then map_option ((#) cp) (utf_8 r) else None)
         | _ \<Rightarrow> None)
      else if 240 \<le> a \<and> a < 245 then
        (case bs of
           b # c # d # r \<Rightarrow>
             (let cp = (a - 240) * 262144 + (b - 128) * 4096 + (c - 128) * 64 + (d - 128)
              in if continuation b \<and> continuation c \<and> continuation d \<and> 65536 \<le> cp \<and> cp < 1114112
                 then map_option ((#) cp) (utf_8 r) else None)
         | _ \<Rightarrow> None)
      else None)"

text \<open>
  \<^verbatim>\<open>utf-8-sig\<close> drops a leading byte order mark. Read from a file, one or two bytes
  that start the mark and end the file give the empty text.
\<close>

definition utf_8_sig :: "nat list \<Rightarrow> nat list option" where
  "utf_8_sig bs =
     (if length bs < 3 \<and> prefix bs [239, 187, 191] then Some []
      else if take 3 bs = [239, 187, 191] then utf_8 (drop 3 bs)
      else utf_8 bs)"

text \<open>The code points of the bytes 128 to 159 in Windows-1252; five bytes have none.\<close>

definition cp1252_high :: "nat option list" where
  "cp1252_high =
     [Some 8364, None, Some 8218, Some 402, Some 8222, Some 8230, Some 8224, Some 8225,
      Some 710, Some 8240, Some 352, Some 8249, Some 338, None, Some 381, None,
      None, Some 8216, Some 8217, Some 8220, Some 8221, Some 8226, Some 8211, Some 8212,
      Some 732, Some 8482, Some 353, Some 8250, Some 339, None, Some 382, Some 376]"

fun cp1252 :: "nat list \<Rightarrow> nat list option" where
  "cp1252 [] = Some []"
| "cp1252 (a # bs) =
     (case (if 128 \<le> a \<and> a < 160 then cp1252_high ! (a - 128) else Some a) of
        None \<Rightarrow> None
      | Some cp \<Rightarrow> map_option ((#) cp) (cp1252 bs))"

text \<open>
  Reading in text mode also turns the line ends \<^verbatim>\<open>\r\n\<close> and \<^verbatim>\<open>\r\<close> into \<^verbatim>\<open>\n\<close>.
\<close>

fun universal_newlines :: "nat list \<Rightarrow> nat list" where
  "universal_newlines (a # b # r) =
     (if a = 13 \<and> b = 10 then 10 # universal_newlines r
      else if a = 13 then 10 # universal_newlines (b # r)
      else a # universal_newlines (b # r))"
| "universal_newlines [a] = (if a = 13 then [10] else [a])"
| "universal_newlines [] = []"

definition python_read :: "string \<Rightarrow> nat list \<Rightarrow> nat list option" where
  "python_read encoding bs =
     map_option universal_newlines
       (if encoding = ''utf-8'' then utf_8 bs
        else if encoding = ''utf-8-sig'' then utf_8_sig bs
        else if encoding = ''latin1'' \<or> encoding = ''iso-8859-1'' then Some bs
        else if encoding = ''cp1252'' then cp1252 bs
        else None)"

section \<open>Writes and skipped lines\<close>

text \<open>
  Two notions used to state the facts below. A sequence of writes is a list of pairs of a
  field name and a value, applied in order with \<^verbatim>\<open>contact[field] = v\<close> (and
  \<^verbatim>\<open>self.all_fields.add(field)\<close> on the parser).
\<close>

definition set_fields :: "vcf_parser \<times> contact \<Rightarrow> (string \<times> string) list \<Rightarrow> vcf_parser \<times> contact" where
  "set_fields st writes = foldl (\<lambda>st (field, v). set_field st field v) st writes"

definition dict_set_all :: "('k, 'v) dict \<Rightarrow> ('k \<times> 'v) list \<Rightarrow> ('k, 'v) dict" where
  "dict_set_all d writes = foldl (\<lambda>d (k, v). dict_set d k v) d writes"


section \<open>Helper facts\<close>

lemma get_type_skip:
  "list_all (\<lambda>q. dict_get tm q = None) pre \<Longrightarrow>
     get_type tm dflt (pre @ rest) = get_type tm dflt rest"
  by (induction pre) auto

lemma phone_key_without_equals:
  assumes "dict_get phone_type_mapping p = Some t"
  shows "CHR ''='' \<notin> set p"
proof -
  from assms have "p \<in> fst ` set phone_type_mapping"
    unfolding dict_get_def by (metis map_of_SomeD fst_conv image_eqI)
  then have "p \<in> {''HOME'', ''WORK'', ''CELL'', ''MOBILE'', ''FAX'', ''PAGER'', ''VOICE'', ''MAIN''}"
    by (simp add: phone_type_mapping_def)
  then show ?thesis by auto
qed

lemma group_fields_filter:
  assumes "distinct (map fst d)"
  shows "group_fields (filter (\<lambda>(k, v). v \<noteq> []) d) g = group_fields d g"
  using assms
proof (induction d)
  case Nil
  then show ?case by simp
next
  case (Cons a d)
  obtain k v where a: "a = (k, v)" by (cases a)
  from Cons.prems have nk: "k \<notin> fst ` set d" by (simp add: a)
  then have none: "map_of d k = None" by (simp add: map_of_eq_None_iff)
  have none': "map_of (filter (\<lambda>(k, v). v \<noteq> []) d) k = None"
    using nk by (force simp: map_of_eq_None_iff)
  from Cons have IH: "group_fields (filter (\<lambda>(k, v). v \<noteq> []) d) g = group_fields d g" by simp
  show ?case
    using IH none none' by (auto simp: a group_fields_def dict_get_def)
qed

lemma concat_nonempty_groups:
  "set (concat (map snd (filter (\<lambda>(k, v). v \<noteq> []) d))) = set (concat (map snd d))"
  by (induction d) auto

lemma read_loop_skip:
  "list_all (\<lambda>e. read_as e file = None) pre \<Longrightarrow>
     read_loop read_as file (pre @ rest) = read_loop read_as file rest"
  by (induction pre) auto

lemma read_loop_None:
  "read_loop read_as file es = None \<longleftrightarrow> list_all (\<lambda>e. read_as e file = None) es"
  by (induction es) (auto split: option.splits)

subsection \<open>Dates\<close>

lemma code_digit_char: "code (digit_char n) = 48 + n mod 10"
proof -
  have "n mod 10 < 10" by simp
  then have "48 + n mod 10 < 256" by linarith
  then show ?thesis by (simp add: code_def digit_char_def)
qed
lemma is_digit_digit_char: "is_digit (digit_char n)"
proof -
  have "n mod 10 < 10" by simp
  then show ?thesis unfolding is_digit_def code_digit_char by linarith
qed
lemma not_space_digit_char: "\<not> is_space (digit_char n)"
proof -
  have "n mod 10 < 10" by simp
  then show ?thesis unfolding is_space_def code_digit_char by linarith
qed
lemma digit_value_digit_char: "digit_value (digit_char n) = n mod 10"
  by (simp add: digit_value_def code_digit_char)

lemma format_date_loop_cases:
  "format_date_loop pad s fs = s \<and> list_all (\<lambda>f. strptime s f = None) fs
   \<or> (\<exists>f d. f \<in> set fs \<and> strptime s f = Some d \<and> format_date_loop pad s fs = strftime pad d)"
proof (induction fs)
  case Nil
  then show ?case by simp
next
  case (Cons f fs)
  show ?case
  proof (cases "strptime s f")
    case None
    with Cons show ?thesis by auto
  next
    case (Some d)
    then show ?thesis by auto
  qed
qed

lemma int_of_digits2: "int_of [digit_char a, digit_char b] = 10 * (a mod 10) + b mod 10"
  by (simp add: int_of_def not_space_digit_char digit_value_digit_char)
lemma int_of_digits4:
  "int_of [digit_char a, digit_char b, digit_char c, digit_char d]
     = 10 * (10 * (10 * (a mod 10) + b mod 10) + c mod 10) + d mod 10"
  by (simp add: int_of_def not_space_digit_char digit_value_digit_char)
lemma int_of_pad2: 
  assumes "n < 100" shows "int_of (pad2 n) = n"
proof -
  from assms have "n div 10 < 10" by simp
  then have "n div 10 mod 10 = n div 10" by simp
  then show ?thesis unfolding pad2_def int_of_digits2 by simp
qed
lemma int_of_pad4:
  assumes "n < 10000" shows "int_of (pad4 n) = n"
proof -
  define q1 where "q1 = n div 10"
  define q2 where "q2 = q1 div 10"
  define q3 where "q3 = q2 div 10"
  have d100: "n div 100 = q2" unfolding q2_def q1_def by (simp add: div_mult2_eq[symmetric])
  have d1000: "n div 1000 = q3" unfolding q3_def q2_def q1_def by (simp add: div_mult2_eq[symmetric])
  from assms have "q3 < 10" unfolding d1000[symmetric] by simp
  then have a: "q3 mod 10 = q3" by simp
  have b: "10 * q3 + q2 mod 10 = q2" unfolding q3_def by simp
  have c: "10 * q2 + q1 mod 10 = q1" unfolding q2_def by simp
  have d: "10 * q1 + n mod 10 = n" unfolding q1_def by simp
  have "int_of (pad4 n) = 10 * (10 * (10 * (q3 mod 10) + q2 mod 10) + q1 mod 10) + n mod 10"
    unfolding pad4_def int_of_digits4 d100 d1000 q1_def[symmetric] ..
  also have "\<dots> = n" unfolding a b c d ..
  finally show ?thesis .
qed

lemma strptime_valid:
  assumes "strptime s f = Some d"
  shows "1 \<le> year d \<and> year d \<le> 9999 \<and> 1 \<le> month d \<and> month d \<le> 12
     \<and> 1 \<le> day d \<and> day d \<le> days_in_month (year d) (month d)"
proof (cases "re_match f s")
  case Nil
  with assms show ?thesis by (simp add: strptime_def)
next
  case (Cons a rest)
  obtain groups r where a: "a = (groups, r)" by (cases a)
  show ?thesis
  proof (cases "dict_get groups CHR ''Y''")
    case None
    with assms Cons a show ?thesis by (simp add: strptime_def split: if_splits)
  next
    case y: (Some y)
    show ?thesis
    proof (cases "dict_get groups CHR ''m''")
      case None
      with assms Cons a y show ?thesis by (simp add: strptime_def split: if_splits)
    next
      case m: (Some m)
      show ?thesis
      proof (cases "dict_get groups CHR ''d''")
        case None
        with assms Cons a y m show ?thesis by (simp add: strptime_def split: if_splits)
      next
        case dd: (Some dd)
        from assms Cons a y m dd show ?thesis
          by (simp add: strptime_def split: if_splits) auto
      qed
    qed
  qed
qed

lemma code_literals:
  "code CHR ''-'' = 45" "code CHR ''/'' = 47" "code CHR ''0'' = 48" "code CHR ''1'' = 49"
  "code CHR ''2'' = 50" "code CHR ''3'' = 51" "code CHR ''9'' = 57" "code CHR '' '' = 32"
  by (simp_all add: code_def)

lemma code_inj: "code a = code b \<longleftrightarrow> a = b"
  by (simp add: code_def)

lemma literal_eq_digit_char: "c = digit_char k \<longleftrightarrow> code c = 48 + k mod 10"
  using code_inj[of c "digit_char k"] by (simp add: code_digit_char)

lemma in_range_digit_char:
  "in_range lo hi (digit_char k) \<longleftrightarrow> code lo \<le> 48 + k mod 10 \<and> 48 + k mod 10 \<le> code hi"
  by (simp add: in_range_def code_digit_char)

lemma alt1: "alt [p] (a # r) = (if p a then [([a], r)] else [])"
  by simp

lemma alt2: "alt [p, q] (a # b # r) = (if p a \<and> q b then [([a, b], r)] else [])"
  by simp

lemma alt4: "alt [p, q, p', q'] (a # b # c # d # r)
   = (if p a \<and> q b \<and> p' c \<and> q' d then [([a, b, c, d], r)] else [])"
  by simp

lemma directive_Y_pad4: "directive CHR ''Y'' (pad4 y @ r) = [(pad4 y, r)]"
  by (simp add: directive_def pad4_def is_digit_digit_char)

lemma directive_m_pad2:
  assumes "1 \<le> m" "m \<le> 12"
  shows "\<exists>others. directive CHR ''m'' (pad2 m @ r) = (pad2 m, r) # others"
proof (cases "m < 10")
  case True
  then have "m div 10 = 0" "m mod 10 = m" by simp_all
  with assms show ?thesis
    by (simp add: directive_def pad2_def alt2 alt1 literal_eq_digit_char in_range_digit_char code_literals)
next
  case False
  with assms have "m div 10 = 1" "m mod 10 \<le> 2" by presburger+
  with assms show ?thesis
    by (simp add: directive_def pad2_def alt2 alt1 literal_eq_digit_char in_range_digit_char code_literals)
qed

lemma directive_d_pad2:
  assumes "1 \<le> d" "d \<le> 31"
  shows "\<exists>others. directive CHR ''d'' (pad2 d @ r) = (pad2 d, r) # others"
proof -
  consider "d < 10" | "10 \<le> d" "d < 30" | "30 \<le> d"
    by linarith
  then show ?thesis
  proof cases
    case 1
    then have "d div 10 = 0" "d mod 10 = d" by simp_all
    with assms show ?thesis
      by (simp add: directive_def pad2_def alt2 alt1 literal_eq_digit_char in_range_digit_char
          code_literals is_digit_digit_char)
  next
    case 2
    then have "d div 10 = 1 \<or> d div 10 = 2" by presburger
    then have "d div 10 mod 10 \<noteq> 3" "1 \<le> d div 10 mod 10" "d div 10 mod 10 \<le> 2" by auto
    then show ?thesis
      by (simp add: directive_def pad2_def alt2 alt1 literal_eq_digit_char in_range_digit_char
          code_literals is_digit_digit_char)
  next
    case 3
    with assms have "d div 10 = 3" "d mod 10 \<le> 1" by presburger+
    then show ?thesis
      by (simp add: directive_def pad2_def alt2 alt1 literal_eq_digit_char in_range_digit_char
          code_literals)
  qed
qed

lemma directive_m_dash: "directive CHR ''m'' (CHR ''-'' # r) = []"
  by (cases r) (simp_all add: directive_def in_range_def code_literals)

lemma re_match_directive:
  assumes "directive d s = (m, r) # others" and "re_match fmt r = (g, r') # tail"
  shows "\<exists>rest. re_match (CHR ''%'' # d # fmt) s = ((d, m) # g, r') # rest"
  using assms by simp

lemma re_match_literal:
  "c \<noteq> CHR ''%'' \<Longrightarrow> re_match (c # d # fmt) (c # r) = re_match (d # fmt) r"
  by simp

lemma days_in_month_le: "days_in_month y m \<le> 31"
  by (simp add: days_in_month_def)

lemma re_match_Y_dash_fails:
  "re_match ''%Y%m%d'' (pad4 y @ CHR ''-'' # r) = []"
proof -
  have "re_match ''%m%d'' (CHR ''-'' # r) = []"
    by (simp add: directive_m_dash)
  then show ?thesis
    using directive_Y_pad4[of y "CHR ''-'' # r"] by simp
qed

lemma re_match_canonical:
  assumes "1 \<le> m" "m \<le> 12" "1 \<le> d" "d \<le> 31"
  shows "\<exists>rest. re_match ''%Y-%m-%d'' (pad4 y @ CHR ''-'' # pad2 m @ CHR ''-'' # pad2 d)
     = ([(CHR ''Y'', pad4 y), (CHR ''m'', pad2 m), (CHR ''d'', pad2 d)], []) # rest"
proof -
  obtain o1 where d1: "directive CHR ''d'' (pad2 d @ []) = (pad2 d, []) # o1"
    using directive_d_pad2[OF assms(3,4), of "[]"] by blast
  have e: "re_match [] [] = ([], []) # []" by simp
  obtain r1 where m1: "re_match ''%d'' (pad2 d) = ([(CHR ''d'', pad2 d)], []) # r1"
    using re_match_directive[OF d1 e] by auto
  then have m2: "re_match ''-%d'' (CHR ''-'' # pad2 d) = ([(CHR ''d'', pad2 d)], []) # r1"
    by simp
  obtain o2 where d2: "directive CHR ''m'' (pad2 m @ CHR ''-'' # pad2 d) = (pad2 m, CHR ''-'' # pad2 d) # o2"
    using directive_m_pad2[OF assms(1,2), of "CHR ''-'' # pad2 d"] by blast
  obtain r2 where m3: "re_match ''%m-%d'' (pad2 m @ CHR ''-'' # pad2 d)
      = ([(CHR ''m'', pad2 m), (CHR ''d'', pad2 d)], []) # r2"
    using re_match_directive[OF d2 m2] by auto
  then have m4: "re_match ''-%m-%d'' (CHR ''-'' # pad2 m @ CHR ''-'' # pad2 d)
      = ([(CHR ''m'', pad2 m), (CHR ''d'', pad2 d)], []) # r2"
    by simp
  have d3: "directive CHR ''Y'' (pad4 y @ CHR ''-'' # pad2 m @ CHR ''-'' # pad2 d)
      = (pad4 y, CHR ''-'' # pad2 m @ CHR ''-'' # pad2 d) # []"
    by (rule directive_Y_pad4)
  show ?thesis
    using re_match_directive[OF d3 m4] by auto
qed

lemma strptime_canonical:
  assumes "1 \<le> y" "y \<le> 9999" "1 \<le> m" "m \<le> 12" "1 \<le> d" "d \<le> days_in_month y m"
  shows "strptime (pad4 y @ ''-'' @ pad2 m @ ''-'' @ pad2 d) ''%Y%m%d'' = None"
    and "strptime (pad4 y @ ''-'' @ pad2 m @ ''-'' @ pad2 d) ''%Y-%m-%d''
      = Some \<lparr>year = y, month = m, day = d\<rparr>"
proof -
  have t: "pad4 y @ ''-'' @ pad2 m @ ''-'' @ pad2 d = pad4 y @ CHR ''-'' # pad2 m @ CHR ''-'' # pad2 d"
    by simp
  show "strptime (pad4 y @ ''-'' @ pad2 m @ ''-'' @ pad2 d) ''%Y%m%d'' = None"
    unfolding t strptime_def re_match_Y_dash_fails by simp
  have d31: "d \<le> 31" using assms(6) days_in_month_le[of y m] by linarith
  obtain rest where r: "re_match ''%Y-%m-%d'' (pad4 y @ CHR ''-'' # pad2 m @ CHR ''-'' # pad2 d)
     = ([(CHR ''Y'', pad4 y), (CHR ''m'', pad2 m), (CHR ''d'', pad2 d)], []) # rest"
    using re_match_canonical[OF assms(3,4,5) d31] by blast
  have iy: "int_of (pad4 y) = y" using assms(2) by (simp add: int_of_pad4)
  have im: "int_of (pad2 m) = m" using assms(4) by (simp add: int_of_pad2)
  have idd: "int_of (pad2 d) = d" using d31 by (simp add: int_of_pad2)
  have "strptime (pad4 y @ CHR ''-'' # pad2 m @ CHR ''-'' # pad2 d) ''%Y-%m-%d''
      = Some \<lparr>year = y, month = m, day = d\<rparr>"
    unfolding strptime_def r using assms by (simp add: dict_get_def iy im idd)
  then show "strptime (pad4 y @ ''-'' @ pad2 m @ ''-'' @ pad2 d) ''%Y-%m-%d''
      = Some \<lparr>year = y, month = m, day = d\<rparr>"
    unfolding t .
qed

lemma alt_splits: "(mm, r) \<in> set (alt ps s) \<Longrightarrow> s = mm @ r"
proof (induction ps s arbitrary: mm rule: alt.induct)
  case (1 s)
  then show ?case by simp
next
  case (2 p ps)
  then show ?case by simp
next
  case (3 p ps c cs)
  then show ?case by (auto split: if_splits)
qed

lemma directive_splits: "(mm, r) \<in> set (directive d s) \<Longrightarrow> s = mm @ r"
  unfolding directive_def by (auto split: if_splits dest: alt_splits)

lemma re_match_needs_slash:
  assumes "re_match (CHR ''%'' # d # CHR ''/'' # c # fmt) s \<noteq> []"
  shows "CHR ''/'' \<in> set s"
proof -
  from assms obtain mm r where in_d: "(mm, r) \<in> set (directive d s)"
    and ne: "re_match (CHR ''/'' # c # fmt) r \<noteq> []"
    by auto
  from ne obtain r' where "r = CHR ''/'' # r'"
    by (cases r) (auto split: if_splits)
  with directive_splits[OF in_d] show ?thesis by simp
qed

lemma digit_char_not_slash: "digit_char n \<noteq> CHR ''/''"
  using is_digit_digit_char[of n] by (auto simp: is_digit_def code_def)

lemma digit_char_not_dash: "digit_char n \<noteq> CHR ''-''"
  using is_digit_digit_char[of n] by (auto simp: is_digit_def code_def)

lemma not_digit_dash: "\<not> is_digit CHR ''-''"
  by (simp add: is_digit_def code_def)

lemma no_slash_in_date_text:
  "CHR ''/'' \<notin> set (year_text pad y @ ''-'' @ pad2 m @ ''-'' @ pad2 d)"
  using digit_char_not_slash[symmetric]
  by (simp add: year_text_def pad4_def pad2_def)

lemma directive_Y_short_year:
  assumes "y < 1000"
  shows "directive CHR ''Y'' (year_text False y @ ''-'' @ pad2 m @ ''-'' @ pad2 d) = []"
  using assms by (simp add: directive_def year_text_def pad2_def not_digit_dash)

lemma strptime_no_match: "re_match f s = [] \<Longrightarrow> strptime s f = None"
  by (simp add: strptime_def)

lemma strptime_short_year:
  assumes "y < 1000"
  shows "list_all (\<lambda>f. strptime (year_text False y @ ''-'' @ pad2 m @ ''-'' @ pad2 d) f = None) formats"
proof -
  let ?t = "year_text False y @ ''-'' @ pad2 m @ ''-'' @ pad2 d"
  have dY: "directive CHR ''Y'' ?t = []"
    by (rule directive_Y_short_year[OF assms])
  have f1: "re_match ''%Y%m%d'' ?t = []"
    using dY by simp
  have f2: "re_match ''%Y-%m-%d'' ?t = []"
    using dY by simp
  have ns: "CHR ''/'' \<notin> set ?t"
    by (rule no_slash_in_date_text)
  have f3: "re_match ''%m/%d/%Y'' ?t = []"
  proof (rule ccontr)
    assume "re_match ''%m/%d/%Y'' ?t \<noteq> []"
    then have h: "CHR ''/'' \<in> set ?t" by (rule re_match_needs_slash)
    show False by (rule notE[OF ns h])
  qed
  have f4: "re_match ''%d/%m/%Y'' ?t = []"
  proof (rule ccontr)
    assume "re_match ''%d/%m/%Y'' ?t \<noteq> []"
    then have h: "CHR ''/'' \<in> set ?t" by (rule re_match_needs_slash)
    show False by (rule notE[OF ns h])
  qed
  show ?thesis
    unfolding formats_def
    using strptime_no_match[OF f1] strptime_no_match[OF f2]
      strptime_no_match[OF f3] strptime_no_match[OF f4]
    by simp
qed

lemma format_date_loop_all_None:
  "list_all (\<lambda>f. strptime s f = None) fs \<Longrightarrow> format_date_loop pad s fs = s"
  by (induction fs) auto

lemma format_date_of_strftime:
  assumes "1 \<le> year d" "year d \<le> 9999" "1 \<le> month d" "month d \<le> 12"
    "1 \<le> day d" "day d \<le> days_in_month (year d) (month d)"
  shows "format_date pad (strftime pad d) = strftime pad d"
proof (cases "pad \<or> 1000 \<le> year d")
  case True
  then have t: "strftime pad d = pad4 (year d) @ ''-'' @ pad2 (month d) @ ''-'' @ pad2 (day d)"
    by (auto simp: strftime_def year_text_def)
  have a: "strptime (strftime pad d) ''%Y%m%d'' = None"
    unfolding t by (rule strptime_canonical(1)[OF assms])
  have b: "strptime (strftime pad d) ''%Y-%m-%d''
      = Some \<lparr>year = year d, month = month d, day = day d\<rparr>"
    unfolding t by (rule strptime_canonical(2)[OF assms])
  have c: "strftime pad \<lparr>year = year d, month = month d, day = day d\<rparr> = strftime pad d"
    by (simp add: strftime_def)
  show ?thesis
    unfolding format_date_def formats_def using a b c by simp
next
  case False
  then have y: "year d < 1000" and p: "pad = False" by auto
  have t: "strftime pad d = year_text False (year d) @ ''-'' @ pad2 (month d) @ ''-'' @ pad2 (day d)"
    by (simp add: strftime_def p)
  show ?thesis
    unfolding format_date_def t
    by (rule format_date_loop_all_None[OF strptime_short_year[OF y]])
qed






subsection \<open>Writes\<close>

lemma set_fields_Nil: "set_fields st [] = st"
  by (simp add: set_fields_def)

lemma set_fields_Cons: "set_fields st ((f, v) # ws) = set_fields (set_field st f v) ws"
  by (simp add: set_fields_def)


lemma set_fields_one: "set_field st f v = set_fields st [(f, v)]"
  by (simp add: set_fields_def)

lemma set_parts_writes:
  "\<exists>ws. \<forall>st. set_parts st name labels parts = set_fields st ws"
proof (induction labels arbitrary: parts)
  case Nil
  have "\<forall>st. set_parts st name [] parts = set_fields st []"
    by (simp add: set_fields_Nil)
  then show ?case by blast
next
  case (Cons l labels)
  show ?case
  proof (cases parts)
    case Nil
    have "\<forall>st. set_parts st name (l # labels) [] = set_fields st []"
      by (simp add: set_fields_Nil)
    with Nil show ?thesis by blast
  next
    case (Cons p ps)
    from Cons.IH[of ps] obtain ws where "\<forall>st. set_parts st name labels ps = set_fields st ws"
      by blast
    then have ws: "set_parts st name labels ps = set_fields st ws" for st
      by blast
    show ?thesis
    proof (cases "p = []")
      case True
      then have "set_parts st name (l # labels) (p # ps) = set_fields st ws" for st
        by (simp add: ws)
      with Cons show ?thesis by blast
    next
      case False
      then have "set_parts st name (l # labels) (p # ps) = set_fields st ((name l, p) # ws)" for st
        by (simp add: ws set_fields_Cons)
      with Cons show ?thesis by blast
    qed
  qed
qed

lemma split_not_Nil: "split s sep \<noteq> []"
  by (induction s) (auto split: list.splits)

lemma if_writes:
  assumes "P \<Longrightarrow> \<exists>ws. \<forall>self c. A self c = Inr (set_fields (self, c) ws)"
    and "\<not> P \<Longrightarrow> \<exists>ws. \<forall>self c. B self c = Inr (set_fields (self, c) ws)"
  shows "\<exists>ws. \<forall>self c. (if P then A self c else B self c) = Inr (set_fields (self, c) ws)"
  using assms by (cases P) simp_all

lemma leaf_field:
  "\<exists>ws. \<forall>self c. Inr (set_field (self, c) f v) = Inr (set_fields (self, c) ws)"
  using set_fields_one[of _ f v] by blast

lemma leaf_parts:
  "\<exists>ws. \<forall>self c. Inr (set_parts (self, c) name labels parts) = Inr (set_fields (self, c) ws)"
  using set_parts_writes[of name labels parts] by auto

lemma leaf_org:
  "\<exists>ws. \<forall>self c.
     (case map strip (split v sep) of
        [] \<Rightarrow> Inl IndexError
      | org # rest \<Rightarrow>
          Inr (case rest of
                 [] \<Rightarrow> set_field (self, c) ''Organization'' org
               | dept # x \<Rightarrow>
                   if dept \<noteq> [] then set_field (set_field (self, c) ''Organization'' org) ''Department'' dept
                   else set_field (self, c) ''Organization'' org))
     = Inr (set_fields (self, c) ws)"
proof (cases "map strip (split v sep)")
  case Nil
  then show ?thesis using split_not_Nil[of v sep] by simp
next
  case (Cons org rest)
  show ?thesis
  proof (cases rest)
    case Nil
    have "set_field st ''Organization'' org = set_fields st [(''Organization'', org)]" for st
      by (rule set_fields_one)
    with Cons Nil show ?thesis by auto
  next
    case c2: (Cons dept x)
    show ?thesis
    proof (cases "dept = []")
      case True
      have "set_field st ''Organization'' org = set_fields st [(''Organization'', org)]" for st
        by (rule set_fields_one)
      with Cons c2 True show ?thesis by auto
    next
      case False
      have "set_field (set_field st ''Organization'' org) ''Department'' dept
          = set_fields st [(''Organization'', org), (''Department'', dept)]" for st
        by (simp add: set_fields_def)
      with Cons c2 False show ?thesis by auto
    qed
  qed
qed

lemma extract_field_data_writes:
  "\<exists>ws. \<forall>self c. extract_field_data pad self c pn v ps = Inr (set_fields (self, c) ws)"
  unfolding extract_field_data_def Let_def
  by (intro if_writes leaf_field leaf_parts leaf_org)





lemma dict_get_dict_set: "dict_get (dict_set d k v) k' = (if k' = k then Some v else dict_get d k')"
  by (induction d) (auto simp: dict_get_def)

lemma keys_dict_set: "set (keys (dict_set d k v)) = insert k (set (keys d))"
proof (induction d)
  case Nil
  then show ?case by (simp add: keys_def)
next
  case (Cons a d)
  obtain k' v' where a: "a = (k', v')" by (cases a)
  from Cons have IH: "fst ` set (dict_set d k v) = insert k (fst ` set d)"
    by (simp add: keys_def)
  show ?case
  proof (cases "k' = k")
    case True
    then show ?thesis by (simp add: keys_def a)
  next
    case False
    then show ?thesis using IH by (simp add: keys_def a insert_commute)
  qed
qed

lemma distinct_dict_set: "distinct (keys d) \<Longrightarrow> distinct (keys (dict_set d k v))"
proof (induction d)
  case Nil
  then show ?case by (simp add: keys_def)
next
  case (Cons a d)
  obtain k' v' where a: "a = (k', v')" by (cases a)
  have "set (map fst (dict_set d k v)) = insert k (set (map fst d))"
    using keys_dict_set[of d k v] by (simp add: keys_def)
  with Cons show ?case by (auto simp: keys_def a)
qed


lemma dict_set_all_Nil: "dict_set_all d [] = d"
  by (simp add: dict_set_all_def)

lemma dict_set_all_Cons: "dict_set_all d ((k, v) # ws) = dict_set_all (dict_set d k v) ws"
  by (simp add: dict_set_all_def)



lemma dict_get_dict_set_all:
  "dict_get (dict_set_all d ws) k
     = (case map_of (rev ws) k of Some w \<Rightarrow> Some w | None \<Rightarrow> dict_get d k)"
proof (induction ws arbitrary: d)
  case Nil
  then show ?case by (simp add: dict_set_all_Nil)
next
  case (Cons a ws)
  obtain k' v' where a: "a = (k', v')" by (cases a)
  show ?case
    unfolding a dict_set_all_Cons Cons.IH
    by (auto simp: dict_get_dict_set map_add_def split: option.splits)
qed

lemma dict_get_written:
  "dict_get (dict_set_all d ws) k
     = (case dict_get (dict_set_all [] ws) k of Some w \<Rightarrow> Some w | None \<Rightarrow> dict_get d k)"
  unfolding dict_get_dict_set_all[of d] dict_get_dict_set_all[of "[]"]
  by (simp add: dict_get_def split: option.splits)

lemma keys_dict_set_all: "set (keys (dict_set_all d ws)) = set (keys d) \<union> fst ` set ws"
proof (induction ws arbitrary: d)
  case Nil
  then show ?case by (simp add: dict_set_all_Nil)
next
  case (Cons a ws)
  obtain k v where a: "a = (k, v)" by (cases a)
  show ?case unfolding a dict_set_all_Cons Cons.IH keys_dict_set by auto
qed

lemma distinct_dict_set_all: "distinct (keys d) \<Longrightarrow> distinct (keys (dict_set_all d ws))"
proof (induction ws arbitrary: d)
  case Nil
  then show ?case by (simp add: dict_set_all_Nil)
next
  case (Cons a ws)
  obtain k v where a: "a = (k, v)" by (cases a)
  show ?case unfolding a dict_set_all_Cons
    by (rule Cons.IH) (rule distinct_dict_set[OF Cons.prems])
qed

lemma set_fields_eq:
  "set_fields (self, c) ws = (self\<lparr>all_fields := fst ` set ws \<union> all_fields self\<rparr>, dict_set_all c ws)"
proof (induction ws arbitrary: self c)
  case Nil
  then show ?case by (simp add: set_fields_Nil dict_set_all_Nil)
next
  case (Cons a ws)
  obtain k v where a: "a = (k, v)" by (cases a)
  have "set_field (self, c) k v = (self\<lparr>all_fields := insert k (all_fields self)\<rparr>, dict_set c k v)"
    by (simp add: set_field_def)
  then show ?case
    unfolding a set_fields_Cons dict_set_all_Cons by (simp add: Cons.IH)
qed

lemma extract_field_data_result:
  "\<exists>ws. \<forall>self c. extract_field_data pad self c pn v ps
     = Inr (self\<lparr>all_fields := fst ` set ws \<union> all_fields self\<rparr>, dict_set_all c ws)"
  using extract_field_data_writes[of pad pn v ps] by (simp add: set_fields_eq)









lemma map_filter_append: "List.map_filter f (xs @ ys) = List.map_filter f xs @ List.map_filter f ys"
  by (simp add: List.map_filter_def)



lemma count_distinct_key:
  assumes "distinct xs" "k \<in> set xs"
  shows "length (filter (\<lambda>f. f = k) xs) = 1"
proof -
  have "{x. x = k} \<inter> set xs = {k}" using assms(2) by auto
  then show ?thesis using distinct_length_filter[OF assms(1), of "\<lambda>f. f = k"] by simp
qed

subsection \<open>Property lines\<close>

lemma split1_at_colon:
  assumes "sep \<notin> set a"
  shows "split1 (a @ sep # b) sep = [a, b]"
proof -
  have d: "dropWhile (\<lambda>c. c \<noteq> sep) (a @ sep # b) = sep # b"
    using assms by (induction a) auto
  have t: "takeWhile (\<lambda>c. c \<noteq> sep) (a @ sep # b) = a"
    using assms by (induction a) auto
  show ?thesis unfolding split1_def d t by simp
qed

lemma split_without_separator: "sep \<notin> set s \<Longrightarrow> split s sep = [s]"
  by (induction s) auto

lemma upper_ascii_lower:
  assumes "97 \<le> code c" "code c \<le> 122"
  shows "upper [c] = [char_of (code c - 32)]"
  using assms by (simp add: upper_def upper_char_def is_lower_shiftable_def)

lemma upper_ascii_other:
  assumes "code c < 97 \<or> 122 < code c" "code c < 128"
  shows "upper [c] = [c]"
  using assms by (auto simp: upper_def upper_char_def is_lower_shiftable_def)

lemma upper_append: "upper (a @ b) = upper a @ upper b"
  by (simp add: upper_def)

lemma code_eq_iff: "c = d \<longleftrightarrow> code c = code d"
  by (simp add: code_def)

lemma is_digit_iff: "is_digit c \<longleftrightarrow> c \<in> set ''0123456789''"
proof -
  have "c \<in> set ''0123456789'' \<longleftrightarrow> code c \<in> {48, 49, 50, 51, 52, 53, 54, 55, 56, 57}"
    by (simp add: code_eq_iff[of c] code_def)
  also have "\<dots> \<longleftrightarrow> 48 \<le> code c \<and> code c \<le> 57"
    by (simp only: insert_iff empty_iff simp_thms) arith
  finally show ?thesis by (simp add: is_digit_def)
qed

lemma phone_char_iff: "phone_char c \<longleftrightarrow> c \<in> set ''0123456789+-()'' \<or> is_space c"
  unfolding phone_char_def is_digit_iff by auto

lemma line_body_split:
  assumes "CHR '':'' \<notin> set property_part" and "strip val \<noteq> []"
    and "split property_part CHR '';'' = name # params"
  shows "line_body pad self contact (property_part @ CHR '':'' # val)
     = extract_field_data pad self contact (upper name) (strip val) (map upper params)"
proof (cases "CHR '';'' \<in> set property_part")
  case True
  then show ?thesis
    using assms by (simp add: line_body_def split1_at_colon)
next
  case False
  from split_without_separator[OF False] assms(3) have "name = property_part" "params = []"
    by simp_all
  then show ?thesis
    using assms False by (simp add: line_body_def split1_at_colon)
qed

subsection \<open>Unfolding\<close>

text \<open>
  A stripped line never starts with a space or a tab, so the first loop of
  \<^verbatim>\<open>parse_vcard\<close> never appends to the current line: the logical lines are the stripped
  physical lines that are not empty.
\<close>

lemma rev_dropWhile_rev_head:
  assumes "rev (dropWhile P (rev t)) = c # r"
  shows "\<exists>r'. t = c # r'"
proof -
  have "dropWhile P (rev t) = drop (length (takeWhile P (rev t))) (rev t)"
    by (rule dropWhile_eq_drop)
  then have "rev (dropWhile P (rev t)) = take (length t - length (takeWhile P (rev t))) t"
    by (simp add: rev_drop)
  with assms have tk: "take (length t - length (takeWhile P (rev t))) t = c # r" by simp
  show ?thesis
  proof (cases t)
    case Nil
    with tk show ?thesis by simp
  next
    case (Cons x xs)
    with tk have "x = c" by (cases "length t - length (takeWhile P (rev t))") auto
    with Cons show ?thesis by simp
  qed
qed

lemma strip_head_not_space:
  assumes "strip s = c # r"
  shows "\<not> is_space c"
proof -
  from assms have "rev (dropWhile is_space (rev (dropWhile is_space s))) = c # r"
    by (simp only: strip_def)
  from rev_dropWhile_rev_head[OF this] obtain r' where d: "dropWhile is_space s = c # r'"
    by blast
  have "dropWhile is_space s \<noteq> []" using d by simp
  from hd_dropWhile[OF this] show ?thesis by (simp add: d)
qed

lemma is_space_blank: "is_space CHR '' ''" "is_space CHR 0x09"
  by (simp_all add: is_space_def code_def)

lemma strip_not_continuation:
  "\<not> (startswith (strip l) '' '' \<or> startswith (strip l) [CHR 0x09])"
proof (cases "strip l")
  case Nil
  then show ?thesis by (simp add: startswith_def)
next
  case (Cons c r)
  have ns: "\<not> is_space c" by (rule strip_head_not_space[OF Cons])
  have "c \<noteq> CHR '' ''" using ns is_space_blank(1) by blast
  moreover have "c \<noteq> CHR 0x09" using ns is_space_blank(2) by blast
  ultimately show ?thesis by (simp add: startswith_def Cons)
qed

lemma unfold_loop_step:
  "unfold_loop processed current (l # ls)
     = unfold_loop (if current \<noteq> [] then processed @ [current] else processed) (strip l) ls"
  using strip_not_continuation[of l] by (simp add: Let_def)

lemma unfold_loop_never_joins:
  "unfold_loop processed current lines
     = (processed @ filter (\<lambda>l. l \<noteq> []) (butlast (current # map strip lines)),
        last (current # map strip lines))"
proof (induction lines arbitrary: processed current)
  case Nil
  then show ?case by simp
next
  case (Cons l ls)
  show ?case
    unfolding unfold_loop_step Cons.IH by simp
qed

lemma filter_butlast_last:
  assumes "xs \<noteq> []"
  shows "(if last xs \<noteq> [] then filter (\<lambda>l. l \<noteq> []) (butlast xs) @ [last xs]
          else filter (\<lambda>l. l \<noteq> []) (butlast xs))
     = filter (\<lambda>l. l \<noteq> []) xs"
proof -
  have b: "butlast xs @ [last xs] = xs"
    using assms by (rule append_butlast_last_id)
  have "filter (\<lambda>l. l \<noteq> []) (butlast xs @ [last xs])
      = (if last xs \<noteq> [] then filter (\<lambda>l. l \<noteq> []) (butlast xs) @ [last xs]
          else filter (\<lambda>l. l \<noteq> []) (butlast xs))"
    by (simp del: append_butlast_last_id)
  then show ?thesis unfolding b by simp
qed

lemma unfold_lines_never_joins:
  "unfold_lines vcard_text
     = filter (\<lambda>l. l \<noteq> []) (map strip (split (strip vcard_text) CHR 0x0A))"
proof -
  define ls where "ls = map strip (split (strip vcard_text) CHR 0x0A)"
  have ne: "[] # ls \<noteq> []" by simp
  have "unfold_lines vcard_text
      = (if last ([] # ls) \<noteq> [] then filter (\<lambda>l. l \<noteq> []) (butlast ([] # ls)) @ [last ([] # ls)]
         else filter (\<lambda>l. l \<noteq> []) (butlast ([] # ls)))"
    unfolding unfold_lines_def Let_def unfold_loop_never_joins ls_def[symmetric]
    by (simp only: prod.case append_Nil)
  also have "\<dots> = filter (\<lambda>l. l \<noteq> []) ([] # ls)"
    by (rule filter_butlast_last[OF ne])
  also have "\<dots> = filter (\<lambda>l. l \<noteq> []) ls"
    by simp
  finally show ?thesis unfolding ls_def .
qed

section \<open>The line unfolder\<close>

text \<open>
  C1. The claim: a logical line split into a first line and continuation lines, each with
  one leading space or tab, is put together again by the unfolder. The code strips every
  physical line before it looks for the leading space or tab, so the continuation branch
  is never taken: on the block below the continuation \<^verbatim>\<open> World\<close> becomes a logical line
  of its own, where the claim gives the one logical line \<^verbatim>\<open>NOTE:HelloWorld\<close>.
\<close>

theorem unfold_lines_keeps_continuation_apart:
  "unfold_lines ''BEGIN:VCARD\<newline>NOTE:Hello\<newline> World\<newline>END:VCARD''
     = [''BEGIN:VCARD'', ''NOTE:Hello'', ''World'', ''END:VCARD'']"
  by code_simp

section \<open>Phone types\<close>

text \<open>
  C3, as stated, fails: the type is that of the first parameter of the line that is a key
  of the table, so the two orders of CELL and HOME give two field names.
\<close>

theorem phone_type_follows_input_order:
  "snd (parse_vcard True new_parser ''BEGIN:VCARD\<newline>TEL;CELL;HOME:123\<newline>END:VCARD'')
     = Some [(''Phone (Mobile)'', ''123'')]
   \<and> snd (parse_vcard True new_parser ''BEGIN:VCARD\<newline>TEL;HOME;CELL:123\<newline>END:VCARD'')
     = Some [(''Phone (Home)'', ''123'')]"
  by code_simp

text \<open>
  C3, amended: parameters that are not keys of the table are passed over; the first
  parameter of the line that is a key decides the type, whatever follows it; the type is
  \<^verbatim>\<open>Phone\<close> when no parameter is a key.
\<close>

theorem get_phone_type_first_parameter:
  assumes "list_all (\<lambda>q. dict_get phone_type_mapping q = None) pre"
  shows "get_phone_type pre = ''Phone''
    \<and> (dict_get phone_type_mapping p = Some t \<longrightarrow> get_phone_type (pre @ p # post) = t)"
  using get_type_skip[OF assms, of "''Phone''" "[]"]
        get_type_skip[OF assms, of "''Phone''" "p # post"]
  by (simp add: get_phone_type_def)

theorem get_phone_type_first_parameter_witness:
  "list_all (\<lambda>q. dict_get phone_type_mapping q = None) [''PREF'']
   \<and> dict_get phone_type_mapping ''CELL'' = Some ''Mobile''
   \<and> get_phone_type [''PREF''] = ''Phone''
   \<and> get_phone_type ([''PREF''] @ ''CELL'' # [''HOME'']) = ''Mobile''"
proof -
  have h: "list_all (\<lambda>q. dict_get phone_type_mapping q = None) [''PREF'']"
    by (simp add: dict_get_def phone_type_mapping_def)
  have k: "dict_get phone_type_mapping ''CELL'' = Some ''Mobile''"
    by (simp add: dict_get_def phone_type_mapping_def)
  show ?thesis
    using h k get_phone_type_first_parameter[OF h, of "''CELL''" "''Mobile''" "[''HOME'']"]
    by simp
qed

text \<open>
  C5. The property name and the parameters of a line are upper-cased (ASCII letters
  \<^verbatim>\<open>a\<close> to \<^verbatim>\<open>z\<close> become \<^verbatim>\<open>A\<close> to \<^verbatim>\<open>Z\<close>, other ASCII characters stay) and each
  parameter is compared as a whole with the keys of the table, so a parameter with an
  \<^verbatim>\<open>=\<close> in it is never a key and lower-case \<^verbatim>\<open>cell\<close> is. For every parameter list,
  typed or not, the value of a TEL line is stored with only its digits, \<^verbatim>\<open>+\<close>,
  \<^verbatim>\<open>-\<close>, parentheses and white space. The three lines of the spec give \<^verbatim>\<open>Phone\<close>,
  \<^verbatim>\<open>Phone (Mobile)\<close> with \<^verbatim>\<open>555-1234\<close>, and \<^verbatim>\<open>Phone\<close>; lower-case and mixed-case
  lines, and a typed line with characters to remove, behave the same way.
\<close>

theorem tel_parameters_are_bare_tokens:
  "(list_all (\<lambda>p. CHR ''='' \<in> set p) parameters \<longrightarrow> get_phone_type parameters = ''Phone'')
   \<and> (CHR '':'' \<notin> set property_part \<and> strip val \<noteq> []
        \<and> split property_part CHR '';'' = name # params
      \<longrightarrow> line_body pad_year self contact (property_part @ CHR '':'' # val)
          = extract_field_data pad_year self contact (upper name) (strip val) (map upper params))
   \<and> (97 \<le> code c \<and> code c \<le> 122 \<longrightarrow> upper [c] = [char_of (code c - 32)])
   \<and> ((code c < 97 \<or> 122 < code c) \<and> code c < 128 \<longrightarrow> upper [c] = [c])
   \<and> upper (a @ b) = upper a @ upper b
   \<and> extract_field_data pad_year self contact ''TEL'' val ps
        = Inr (set_field (self, contact)
            (if get_phone_type ps \<noteq> ''Phone'' then ''Phone ('' @ get_phone_type ps @ '')'' else ''Phone'')
            (filter phone_char val))
   \<and> (phone_char c \<longleftrightarrow> c \<in> set ''0123456789+-()'' \<or> is_space c)
   \<and> snd (parse_vcard pad_year new_parser ''BEGIN:VCARD\<newline>TEL;TYPE=CELL:555-1234\<newline>END:VCARD'')
        = Some [(''Phone'', ''555-1234'')]
   \<and> snd (parse_vcard pad_year new_parser ''BEGIN:VCARD\<newline>TEL;CELL:555-1234\<newline>END:VCARD'')
        = Some [(''Phone (Mobile)'', ''555-1234'')]
   \<and> snd (parse_vcard pad_year new_parser ''BEGIN:VCARD\<newline>TEL:555-5678\<newline>END:VCARD'')
        = Some [(''Phone'', ''555-5678'')]
   \<and> snd (parse_vcard pad_year new_parser ''BEGIN:VCARD\<newline>tel;cell:555-1234\<newline>END:VCARD'')
        = Some [(''Phone (Mobile)'', ''555-1234'')]
   \<and> snd (parse_vcard pad_year new_parser ''BEGIN:VCARD\<newline>tel;type=cell:555-1234\<newline>END:VCARD'')
        = Some [(''Phone'', ''555-1234'')]
   \<and> snd (parse_vcard pad_year new_parser
          ''BEGIN:VCARD\<newline>Tel;Cell: +1 (555) 123-4567 ext. 9\<newline>END:VCARD'')
        = Some [(''Phone (Mobile)'', ''+1 (555) 123-4567  9'')]"
proof -
  have a: "get_phone_type parameters = ''Phone''"
    if "list_all (\<lambda>p. CHR ''='' \<in> set p) parameters"
    using that unfolding get_phone_type_def
  proof (induction parameters)
    case Nil
    then show ?case by simp
  next
    case (Cons p ps)
    then have "dict_get phone_type_mapping p = None"
      using phone_key_without_equals[of p] by (cases "dict_get phone_type_mapping p") auto
    with Cons show ?case by simp
  qed
  have b: "line_body pad_year self contact (property_part @ CHR '':'' # val)
          = extract_field_data pad_year self contact (upper name) (strip val) (map upper params)"
    if "CHR '':'' \<notin> set property_part" "strip val \<noteq> []"
      "split property_part CHR '';'' = name # params"
    using that by (rule line_body_split)
  have c: "upper [c] = [char_of (code c - 32)]" if "97 \<le> code c" "code c \<le> 122"
    using that by (rule upper_ascii_lower)
  have d: "upper [c] = [c]" if "code c < 97 \<or> 122 < code c" "code c < 128"
    using that by (rule upper_ascii_other)
  have e: "upper (a @ b) = upper a @ upper b"
    by (rule upper_append)
  have f: "extract_field_data pad_year self contact ''TEL'' val ps
        = Inr (set_field (self, contact)
            (if get_phone_type ps \<noteq> ''Phone'' then ''Phone ('' @ get_phone_type ps @ '')'' else ''Phone'')
            (filter phone_char val))"
    by (simp add: extract_field_data_def typed_name_def Let_def)
  have g: "phone_char c \<longleftrightarrow> c \<in> set ''0123456789+-()'' \<or> is_space c"
    by (rule phone_char_iff)
  have l1: "snd (parse_vcard pad_year new_parser ''BEGIN:VCARD\<newline>TEL;TYPE=CELL:555-1234\<newline>END:VCARD'')
        = Some [(''Phone'', ''555-1234'')]"
    by code_simp
  have l2: "snd (parse_vcard pad_year new_parser ''BEGIN:VCARD\<newline>TEL;CELL:555-1234\<newline>END:VCARD'')
        = Some [(''Phone (Mobile)'', ''555-1234'')]"
    by code_simp
  have l3: "snd (parse_vcard pad_year new_parser ''BEGIN:VCARD\<newline>TEL:555-5678\<newline>END:VCARD'')
        = Some [(''Phone'', ''555-5678'')]"
    by code_simp
  have l4: "snd (parse_vcard pad_year new_parser ''BEGIN:VCARD\<newline>tel;cell:555-1234\<newline>END:VCARD'')
        = Some [(''Phone (Mobile)'', ''555-1234'')]"
    by code_simp
  have l5: "snd (parse_vcard pad_year new_parser ''BEGIN:VCARD\<newline>tel;type=cell:555-1234\<newline>END:VCARD'')
        = Some [(''Phone'', ''555-1234'')]"
    by code_simp
  have l6: "snd (parse_vcard pad_year new_parser
          ''BEGIN:VCARD\<newline>Tel;Cell: +1 (555) 123-4567 ext. 9\<newline>END:VCARD'')
        = Some [(''Phone (Mobile)'', ''+1 (555) 123-4567  9'')]"
    by code_simp
  show ?thesis
    apply (intro conjI impI)
    subgoal by (rule a)
    subgoal by (rule b) simp_all
    subgoal by (rule c) simp_all
    subgoal by (rule d) simp_all
    subgoal by (rule e)
    subgoal by (rule f)
    subgoal by (rule g)
    subgoal by (rule l1)
    subgoal by (rule l2)
    subgoal by (rule l3)
    subgoal by (rule l4)
    subgoal by (rule l5)
    subgoal by (rule l6)
    done
qed

theorem tel_parameters_are_bare_tokens_witness:
  "list_all (\<lambda>p. CHR ''='' \<in> set p) [''TYPE=CELL'', ''TYPE=VOICE'']
   \<and> get_phone_type [''TYPE=CELL'', ''TYPE=VOICE''] = ''Phone''
   \<and> CHR '':'' \<notin> set ''tel;cell;type=home''
   \<and> strip '' (555) 12-34 x5 '' \<noteq> []
   \<and> split ''tel;cell;type=home'' CHR '';'' = ''tel'' # [''cell'', ''type=home'']
   \<and> line_body True new_parser [] (''tel;cell;type=home'' @ CHR '':'' # '' (555) 12-34 x5 '')
       = Inr (\<lparr>contacts = [], all_fields = {''Phone (Mobile)''}\<rparr>, [(''Phone (Mobile)'', ''(555) 12-34 5'')])
   \<and> 97 \<le> code CHR ''c'' \<and> code CHR ''c'' \<le> 122
   \<and> upper ''c'' = ''C''
   \<and> (code CHR ''='' < 97 \<or> 122 < code CHR ''='') \<and> code CHR ''='' < 128
   \<and> upper ''='' = ''=''"
proof -
  have h1: "list_all (\<lambda>p. CHR ''='' \<in> set p) [''TYPE=CELL'', ''TYPE=VOICE'']"
    by simp
  have h2: "CHR '':'' \<notin> set ''tel;cell;type=home''"
    by simp
  have h3: "strip '' (555) 12-34 x5 '' \<noteq> []"
    by code_simp
  have h4: "split ''tel;cell;type=home'' CHR '';'' = ''tel'' # [''cell'', ''type=home'']"
    by code_simp
  have h5: "97 \<le> code CHR ''c''" "code CHR ''c'' \<le> 122"
    by (simp_all add: code_def)
  have h6: "code CHR ''='' < 97 \<or> 122 < code CHR ''=''" "code CHR ''='' < 128"
    by (simp_all add: code_def)
  note t1 = tel_parameters_are_bare_tokens[where parameters = "[''TYPE=CELL'', ''TYPE=VOICE'']"
      and property_part = "''tel;cell;type=home''" and val = "'' (555) 12-34 x5 ''"
      and name = "''tel''" and params = "[''cell'', ''type=home'']" and pad_year = True
      and self = new_parser and contact = "[]" and c = "CHR ''c''"]
  note t2 = tel_parameters_are_bare_tokens[where c = "CHR ''=''"]
  have r1: "get_phone_type [''TYPE=CELL'', ''TYPE=VOICE''] = ''Phone''"
    using t1 h1 by blast
  have r2: "line_body True new_parser [] (''tel;cell;type=home'' @ CHR '':'' # '' (555) 12-34 x5 '')
       = extract_field_data True new_parser [] (upper ''tel'') (strip '' (555) 12-34 x5 '')
           (map upper [''cell'', ''type=home''])"
    using t1 h2 h3 h4 by blast
  have e: "extract_field_data True new_parser [] (upper ''tel'') (strip '' (555) 12-34 x5 '')
           (map upper [''cell'', ''type=home''])
       = Inr (\<lparr>contacts = [], all_fields = {''Phone (Mobile)''}\<rparr>, [(''Phone (Mobile)'', ''(555) 12-34 5'')])"
    by code_simp
  have r3: "upper ''c'' = [char_of (code CHR ''c'' - 32)]"
    using t1 h5 by blast
  have v: "[char_of (code CHR ''c'' - 32)] = ''C''"
    by code_simp
  have r4: "upper ''='' = ''=''"
    using t2 h6 by blast
  show ?thesis
    using h1 r1 h2 h3 h4 r2[unfolded e] h5 r3[unfolded v] h6 r4
    by (intro conjI)
qed

text \<open>
  C10. The value \<^verbatim>\<open>abc\<close> is not empty after trimming, so the line is not skipped; none
  of its characters is kept, so the contact maps \<^verbatim>\<open>Phone\<close> to the empty text and the
  field name enters the set of all fields.
\<close>

theorem tel_stores_empty_value:
  "strip ''abc'' \<noteq> []
   \<and> parse_vcard pad_year new_parser ''BEGIN:VCARD\<newline>TEL:abc\<newline>END:VCARD''
       = (\<lparr>contacts = [], all_fields = {''Phone''}\<rparr>, Some [(''Phone'', [])])"
proof -
  have a: "strip ''abc'' \<noteq> []"
    by code_simp
  have b: "parse_vcard pad_year new_parser ''BEGIN:VCARD\<newline>TEL:abc\<newline>END:VCARD''
       = (\<lparr>contacts = [], all_fields = {''Phone''}\<rparr>, Some [(''Phone'', [])])"
    by code_simp
  show ?thesis by (intro conjI a b)
qed

theorem tel_stores_empty_value_witness:
  "dict_get (the (snd (parse_vcard False new_parser ''BEGIN:VCARD\<newline>TEL:abc\<newline>END:VCARD''))) ''Phone''
     = Some []
   \<and> ''Phone'' \<in> all_fields (fst (parse_vcard False new_parser ''BEGIN:VCARD\<newline>TEL:abc\<newline>END:VCARD''))"
  using tel_stores_empty_value[of False] by (simp add: dict_get_def)

section \<open>Field groups: the facts\<close>

text \<open>
  C2, as stated, fails: each group is computed from the whole set of fields, and nothing
  removes a field matched by an earlier group. The field \<^verbatim>\<open>Email (Work)\<close> is listed
  under \<^verbatim>\<open>Contact Fields\<close> and again under \<^verbatim>\<open>Work Fields\<close>.
\<close>

theorem field_listed_in_two_groups:
  "get_field_suggestions [''Email (Work)'']
     = [(''Contact Fields'', [''Email (Work)'']), (''Work Fields'', [''Email (Work)''])]"
  by code_simp

text \<open>
  C2, amended: each of the five keyword groups lists every field whose lower-cased name
  contains one of its keywords, whatever the other groups list; \<^verbatim>\<open>Other Fields\<close> lists
  the fields that match no keyword; every field is listed at least once; no group of the
  result is empty.
\<close>

theorem field_groups_by_keywords:
  "group_fields (get_field_suggestions fs) ''Name Fields''
      = filter (\<lambda>f. any_keyword f name_keywords) fs
   \<and> group_fields (get_field_suggestions fs) ''Contact Fields''
      = filter (\<lambda>f. any_keyword f contact_keywords) fs
   \<and> group_fields (get_field_suggestions fs) ''Address Fields''
      = filter (\<lambda>f. any_keyword f address_keywords) fs
   \<and> group_fields (get_field_suggestions fs) ''Work Fields''
      = filter (\<lambda>f. any_keyword f work_keywords) fs
   \<and> group_fields (get_field_suggestions fs) ''Personal Fields''
      = filter (\<lambda>f. any_keyword f personal_keywords) fs
   \<and> group_fields (get_field_suggestions fs) ''Other Fields''
      = filter (\<lambda>f. \<not> any_keyword f name_keywords \<and> \<not> any_keyword f contact_keywords
          \<and> \<not> any_keyword f address_keywords \<and> \<not> any_keyword f work_keywords
          \<and> \<not> any_keyword f personal_keywords) fs
   \<and> set (concat (map snd (get_field_suggestions fs))) = set fs
   \<and> list_all (\<lambda>(g, v). v \<noteq> []) (get_field_suggestions fs)"
proof -
  have groups: "group_fields (get_field_suggestions fs) ''Name Fields''
      = filter (\<lambda>f. any_keyword f name_keywords) fs
   \<and> group_fields (get_field_suggestions fs) ''Contact Fields''
      = filter (\<lambda>f. any_keyword f contact_keywords) fs
   \<and> group_fields (get_field_suggestions fs) ''Address Fields''
      = filter (\<lambda>f. any_keyword f address_keywords) fs
   \<and> group_fields (get_field_suggestions fs) ''Work Fields''
      = filter (\<lambda>f. any_keyword f work_keywords) fs
   \<and> group_fields (get_field_suggestions fs) ''Personal Fields''
      = filter (\<lambda>f. any_keyword f personal_keywords) fs
   \<and> group_fields (get_field_suggestions fs) ''Other Fields''
      = filter (\<lambda>f. \<not> any_keyword f name_keywords \<and> \<not> any_keyword f contact_keywords
          \<and> \<not> any_keyword f address_keywords \<and> \<not> any_keyword f work_keywords
          \<and> \<not> any_keyword f personal_keywords) fs"
    unfolding get_field_suggestions_def Let_def
    apply (subst group_fields_filter, simp)+
    apply (simp add: group_fields_def dict_get_def)
    apply (rule filter_cong)
     apply auto
    done
  have all: "set (concat (map snd (get_field_suggestions fs))) = set fs"
    unfolding get_field_suggestions_def Let_def concat_nonempty_groups
    by auto
  have nonempty: "list_all (\<lambda>(g, v). v \<noteq> []) (get_field_suggestions fs)"
    unfolding get_field_suggestions_def Let_def
    by (simp add: list_all_iff split_def)
  show ?thesis
    using groups all nonempty by (simp only: simp_thms)
qed

theorem field_groups_by_keywords_witness:
  "group_fields (get_field_suggestions [''Phone (Work)'', ''Full Name'', ''Maage'']) ''Contact Fields''
      = [''Phone (Work)'']
   \<and> group_fields (get_field_suggestions [''Phone (Work)'', ''Full Name'', ''Maage'']) ''Work Fields''
      = [''Phone (Work)'']
   \<and> group_fields (get_field_suggestions [''Phone (Work)'', ''Full Name'', ''Maage'']) ''Name Fields''
      = [''Full Name'']
   \<and> group_fields (get_field_suggestions [''Phone (Work)'', ''Full Name'', ''Maage'']) ''Other Fields''
      = [''Maage'']
   \<and> group_fields (get_field_suggestions [''Phone (Work)'', ''Full Name'', ''Maage'']) ''Address Fields''
      = []"
proof -
  have a: "filter (\<lambda>f. any_keyword f contact_keywords) [''Phone (Work)'', ''Full Name'', ''Maage'']
      = [''Phone (Work)'']"
    by code_simp
  have b: "filter (\<lambda>f. any_keyword f work_keywords) [''Phone (Work)'', ''Full Name'', ''Maage'']
      = [''Phone (Work)'']"
    by code_simp
  have c: "filter (\<lambda>f. any_keyword f name_keywords) [''Phone (Work)'', ''Full Name'', ''Maage'']
      = [''Full Name'']"
    by code_simp
  have d: "filter (\<lambda>f. \<not> any_keyword f name_keywords \<and> \<not> any_keyword f contact_keywords
          \<and> \<not> any_keyword f address_keywords \<and> \<not> any_keyword f work_keywords
          \<and> \<not> any_keyword f personal_keywords) [''Phone (Work)'', ''Full Name'', ''Maage'']
      = [''Maage'']"
    by code_simp
  have e: "filter (\<lambda>f. any_keyword f address_keywords) [''Phone (Work)'', ''Full Name'', ''Maage'']
      = []"
    by code_simp
  show ?thesis
    using field_groups_by_keywords[of "[''Phone (Work)'', ''Full Name'', ''Maage'']"] a b c d e
    by simp
qed

section \<open>The decoder: the facts\<close>

text \<open>
  C8. The encodings are tried in the order UTF-8, UTF-8 with byte order mark, Latin-1,
  Windows-1252, ISO-8859-1; the content is the text of the first one that reads the file;
  the error is raised exactly when none of them reads it.
\<close>

theorem read_content_first_success:
  "encodings = [''utf-8'', ''utf-8-sig'', ''latin1'', ''cp1252'', ''iso-8859-1'']
   \<and> (i < length encodings \<and> list_all (\<lambda>e. read_as e file = None) (take i encodings)
        \<and> read_as (encodings ! i) file = Some t
      \<longrightarrow> read_content read_as file = Inr t)
   \<and> (read_content read_as file = Inl ValueError
      \<longleftrightarrow> list_all (\<lambda>e. read_as e file = None) encodings)"
proof -
  have order: "encodings = [''utf-8'', ''utf-8-sig'', ''latin1'', ''cp1252'', ''iso-8859-1'']"
    by (simp add: encodings_def)
  have first: "read_content read_as file = Inr t"
    if i: "i < length encodings"
      and none: "list_all (\<lambda>e. read_as e file = None) (take i encodings)"
      and some: "read_as (encodings ! i) file = Some t"
  proof -
    have split: "encodings = take i encodings @ encodings ! i # drop (Suc i) encodings"
      using i by (simp add: id_take_nth_drop)
    have "read_loop read_as file encodings
        = read_loop read_as file (encodings ! i # drop (Suc i) encodings)"
      using read_loop_skip[of read_as "file" "take i encodings"
          "encodings ! i # drop (Suc i) encodings"] none split
      by simp
    then have "read_loop read_as file encodings = Some t"
      using some by simp
    then show ?thesis by (simp add: read_content_def)
  qed
  have error: "read_content read_as file = Inl ValueError
      \<longleftrightarrow> list_all (\<lambda>e. read_as e file = None) encodings"
    using read_loop_None[of read_as "file" encodings]
    by (auto simp: read_content_def split: option.splits)
  show ?thesis
    using order first error by (intro conjI impI) auto
qed

theorem read_content_first_success_witness:
  "(2::nat) < length encodings
   \<and> list_all (\<lambda>e. python_read e [233] = None) (take 2 encodings)
   \<and> python_read (encodings ! 2) [233] = Some [233]
   \<and> read_content python_read [233] = Inr [233]"
proof -
  have a: "(2::nat) < length encodings"
    by (simp add: encodings_def)
  have b: "list_all (\<lambda>e. python_read e [233] = None) (take 2 encodings)"
    by code_simp
  have c: "python_read (encodings ! 2) [233] = Some [233]"
    by code_simp
  show ?thesis
    using a b c read_content_first_success[of 2 python_read "[233]" "[233]"]
    by simp
qed

section \<open>The date normalizer: the facts\<close>




text \<open>
  C9. Applying the date normalizer twice gives what applying it once gives, for every
  text and for both ways of writing the year: a date it has written is read back by the
  second format and written the same way, and a text that no format parses comes back as
  it is.
\<close>

theorem format_date_idempotent:
  "format_date pad_year (format_date pad_year s) = format_date pad_year s
   \<and> (strptime s f = Some d \<longrightarrow> format_date pad_year (strftime pad_year d) = strftime pad_year d)
   \<and> (list_all (\<lambda>f. strptime s f = None) formats \<longrightarrow> format_date pad_year s = s)"
proof -
  have written: "format_date pad_year (strftime pad_year d') = strftime pad_year d'"
    if "strptime s f' = Some d'" for f' d'
    using strptime_valid[OF that] by (intro format_date_of_strftime) simp_all
  have unchanged: "format_date pad_year s = s"
    if "list_all (\<lambda>f. strptime s f = None) formats"
    unfolding format_date_def by (rule format_date_loop_all_None[OF that])
  from format_date_loop_cases[of pad_year s formats]
  consider "format_date pad_year s = s"
    | f' d' where "strptime s f' = Some d'" "format_date pad_year s = strftime pad_year d'"
    unfolding format_date_def by blast
  then have idem: "format_date pad_year (format_date pad_year s) = format_date pad_year s"
  proof cases
    case 1
    then show ?thesis by simp
  next
    case 2
    from written[OF 2(1)] 2(2) show ?thesis by simp
  qed
  show ?thesis
    using idem written unchanged by (intro conjI impI) auto
qed

theorem format_date_idempotent_witness:
  "strptime ''6/5/0985'' ''%m/%d/%Y'' = Some \<lparr>year = 985, month = 6, day = 5\<rparr>
   \<and> format_date False ''6/5/0985'' = ''985-06-05''
   \<and> format_date False (format_date False ''6/5/0985'') = ''985-06-05''
   \<and> format_date True ''6/5/0985'' = ''0985-06-05''
   \<and> format_date True (format_date True ''6/5/0985'') = ''0985-06-05''
   \<and> format_date True (strftime True \<lparr>year = 985, month = 6, day = 5\<rparr>)
       = strftime True \<lparr>year = 985, month = 6, day = 5\<rparr>"
proof -
  have b: "strptime ''6/5/0985'' ''%m/%d/%Y'' = Some \<lparr>year = 985, month = 6, day = 5\<rparr>"
    by code_simp
  have c: "format_date False ''6/5/0985'' = ''985-06-05''"
    by code_simp
  have d: "format_date True ''6/5/0985'' = ''0985-06-05''"
    by code_simp
  have e: "format_date False (format_date False ''6/5/0985'') = ''985-06-05''"
    using format_date_idempotent[of False "''6/5/0985''"] c by (simp only: simp_thms)
  have f: "format_date True (format_date True ''6/5/0985'') = ''0985-06-05''"
    using format_date_idempotent[of True "''6/5/0985''"] d by (simp only: simp_thms)
  have g: "format_date True (strftime True \<lparr>year = 985, month = 6, day = 5\<rparr>)
       = strftime True \<lparr>year = 985, month = 6, day = 5\<rparr>"
    using format_date_idempotent[of True "''6/5/0985''" "''%m/%d/%Y''"
        "\<lparr>year = 985, month = 6, day = 5\<rparr>"] b
    by (simp only: simp_thms)
  show ?thesis
    by (intro conjI b c e d f g)
qed

section \<open>Lines and blocks: the facts\<close>

text \<open>
  C7. When two property lines derive the same field name, the value of the later line is
  the one the contact holds afterwards, and the contact has one entry for the name: the
  fields a line derives are those it writes into an empty contact, and whatever contact
  the two lines are processed on, the later value replaces the earlier one.
\<close>

theorem later_line_overwrites:
  assumes "extract_field_data pad_year new_parser [] name1 val1 params1 = Inr (p1, written1)"
    and "k \<in> set (keys written1)"
    and "extract_field_data pad_year new_parser [] name2 val2 params2 = Inr (p2, written2)"
    and "dict_get written2 k = Some w"
    and "distinct (keys contact)"
  shows "\<exists>self1 c1 self2 c2.
      extract_field_data pad_year self contact name1 val1 params1 = Inr (self1, c1)
    \<and> extract_field_data pad_year self1 c1 name2 val2 params2 = Inr (self2, c2)
    \<and> k \<in> set (keys c1)
    \<and> dict_get c2 k = Some w
    \<and> distinct (keys c2)
    \<and> length (filter (\<lambda>f. f = k) (keys c2)) = 1"
proof -
  from extract_field_data_result[of pad_year name1 val1 params1] obtain ws1 where
    ws1: "\<And>s c. extract_field_data pad_year s c name1 val1 params1
      = Inr (s\<lparr>all_fields := fst ` set ws1 \<union> all_fields s\<rparr>, dict_set_all c ws1)"
    by blast
  from extract_field_data_result[of pad_year name2 val2 params2] obtain ws2 where
    ws2: "\<And>s c. extract_field_data pad_year s c name2 val2 params2
      = Inr (s\<lparr>all_fields := fst ` set ws2 \<union> all_fields s\<rparr>, dict_set_all c ws2)"
    by blast
  define self1 where "self1 = self\<lparr>all_fields := fst ` set ws1 \<union> all_fields self\<rparr>"
  define c1 where "c1 = dict_set_all contact ws1"
  define self2 where "self2 = self1\<lparr>all_fields := fst ` set ws2 \<union> all_fields self1\<rparr>"
  define c2 where "c2 = dict_set_all c1 ws2"
  have w1: "written1 = dict_set_all [] ws1" using assms(1) by (simp add: ws1)
  have w2: "written2 = dict_set_all [] ws2" using assms(3) by (simp add: ws2)
  have k1: "k \<in> fst ` set ws1"
    using assms(2) unfolding w1 keys_dict_set_all by (simp add: keys_def)
  have a: "extract_field_data pad_year self contact name1 val1 params1 = Inr (self1, c1)"
    by (simp add: ws1 self1_def c1_def)
  have b: "extract_field_data pad_year self1 c1 name2 val2 params2 = Inr (self2, c2)"
    by (simp add: ws2 self2_def c2_def)
  have c: "k \<in> set (keys c1)"
    unfolding c1_def keys_dict_set_all using k1 by simp
  have d: "dict_get c2 k = Some w"
    unfolding c2_def dict_get_written[of c1 ws2 k] using assms(4) by (simp add: w2)
  have e: "distinct (keys c2)"
    unfolding c2_def c1_def by (intro distinct_dict_set_all assms(5))
  have "k \<in> set (keys c2)"
    unfolding c2_def keys_dict_set_all using c by simp
  then have f: "length (filter (\<lambda>f. f = k) (keys c2)) = 1"
    by (rule count_distinct_key[OF e])
  from a b c d e f show ?thesis by blast
qed

theorem later_line_overwrites_witness:
  "extract_field_data True new_parser [] ''TEL'' ''111'' [''HOME'']
     = Inr (\<lparr>contacts = [], all_fields = {''Phone (Home)''}\<rparr>, [(''Phone (Home)'', ''111'')])
   \<and> ''Phone (Home)'' \<in> set (keys [(''Phone (Home)'', ''111'')])
   \<and> extract_field_data True new_parser [] ''TEL'' ''222'' [''HOME'']
     = Inr (\<lparr>contacts = [], all_fields = {''Phone (Home)''}\<rparr>, [(''Phone (Home)'', ''222'')])
   \<and> dict_get [(''Phone (Home)'', ''222'')] ''Phone (Home)'' = Some ''222''
   \<and> distinct (keys [(''Full Name'', ''A'')])
   \<and> (\<exists>self1 c1 self2 c2.
        extract_field_data True new_parser [(''Full Name'', ''A'')] ''TEL'' ''111'' [''HOME''] = Inr (self1, c1)
      \<and> extract_field_data True self1 c1 ''TEL'' ''222'' [''HOME''] = Inr (self2, c2)
      \<and> ''Phone (Home)'' \<in> set (keys c1)
      \<and> dict_get c2 ''Phone (Home)'' = Some ''222''
      \<and> distinct (keys c2)
      \<and> length (filter (\<lambda>f. f = ''Phone (Home)'') (keys c2)) = 1)
   \<and> snd (parse_vcard True new_parser ''BEGIN:VCARD\<newline>TEL;HOME:111\<newline>TEL;HOME:222\<newline>END:VCARD'')
     = Some [(''Phone (Home)'', ''222'')]"
proof -
  have a: "extract_field_data True new_parser [] ''TEL'' ''111'' [''HOME'']
     = Inr (\<lparr>contacts = [], all_fields = {''Phone (Home)''}\<rparr>, [(''Phone (Home)'', ''111'')])"
    by code_simp
  have b: "''Phone (Home)'' \<in> set (keys [(''Phone (Home)'', ''111'')])"
    by (simp add: keys_def)
  have c: "extract_field_data True new_parser [] ''TEL'' ''222'' [''HOME'']
     = Inr (\<lparr>contacts = [], all_fields = {''Phone (Home)''}\<rparr>, [(''Phone (Home)'', ''222'')])"
    by code_simp
  have d: "dict_get [(''Phone (Home)'', ''222'')] ''Phone (Home)'' = Some ''222''"
    by (simp add: dict_get_def)
  have e: "distinct (keys [(''Full Name'', ''A'')])"
    by (simp add: keys_def)
  note f = later_line_overwrites[OF a b c d e, of new_parser]
  have g: "snd (parse_vcard True new_parser ''BEGIN:VCARD\<newline>TEL;HOME:111\<newline>TEL;HOME:222\<newline>END:VCARD'')
     = Some [(''Phone (Home)'', ''222'')]"
    by code_simp
  show ?thesis
    by (intro conjI a b c d e f g)
qed



end
